theory Spec2Isabelle
  imports Main "HOL-Library.Char_ord" "HOL-Library.List_Lexorder" "HOL-Library.Multiset"
    "HOL-Library.Sublist"
begin

section \<open>Data model (src/backend/src/types.ts)\<close>

text \<open>
  A \<open>Person\<close> is an object with a string \<open>id\<close> and a string \<open>name\<close>. Strings are compared
  as JavaScript compares them: lexicographically, character by character, a proper prefix
  being smaller (the order of \<open>List_Lexorder\<close> over \<open>Char_ord\<close>).

  The source compares persons by object identity (\<open>firstTeam.includes(p)\<close>). The model
  compares the records; the two agree whenever no two objects of the input carry the same
  \<open>id\<close> and \<open>name\<close>, which the uniqueness of ids gives.
\<close>

record person =
  person_id :: string
  person_name :: string

text \<open>
  A value read from the conflict matrix: a number, or a value that is not a number. The
  entries of the matrix are numbers (\<open>types.ts\<close>); the values that are not numbers are what
  a property access finds by inheritance: a function, the prototype object, the name of a
  function. Added to a number, each of them makes \<open>+\<close> concatenate strings. Numbers are
  integers here.
\<close>

datatype jsval = Number int | NonNumber

text \<open>
  The conflict matrix is modelled by what reading its properties gives. \<open>m a\<close> is
  \<open>conflictMatrix[a]\<close>: \<open>None\<close> when the read gives \<open>undefined\<close> (or \<open>null\<close>), and otherwise
  the value read, given by its own property reads: \<open>row b\<close> is \<open>conflictMatrix[a][b]\<close>, again
  \<open>None\<close> for \<open>undefined\<close> or \<open>null\<close>. A read finds own and inherited properties alike, so a
  row may be a row of the matrix or a member inherited from \<open>Object.prototype\<close>. The
  matrix \<open>\<lambda>_. None\<close> reads \<open>undefined\<close> everywhere, as the empty object does at every id
  that is not a key of \<open>Object.prototype\<close>. A read that raises (the accessors \<open>caller\<close> and
  \<open>arguments\<close> of a built-in function) is outside this model.
\<close>

type_synonym conflictMatrix = "string \<Rightarrow> (string \<Rightarrow> jsval option) option"

text \<open>
  The string keys of \<open>Object.prototype\<close> (ECMAScript, with its annex B): every plain object
  inherits these members, and none of them is a number.
\<close>

definition object_prototype_keys :: "string list" where
  "object_prototype_keys =
     [''constructor'', ''hasOwnProperty'', ''isPrototypeOf'', ''propertyIsEnumerable'',
      ''toLocaleString'', ''toString'', ''valueOf'', ''__proto__'', ''__defineGetter__'',
      ''__defineSetter__'', ''__lookupGetter__'', ''__lookupSetter__'']"

text \<open>
  The matrix that \<open>JSON.parse\<close> gives for rows of number entries \<open>own\<close>. An own row reads
  its own entries as numbers and inherits the members of \<open>Object.prototype\<close>. Where the
  matrix has no own row, it inherits a member of \<open>Object.prototype\<close> itself; what the
  properties of such a member read as (the \<open>length\<close> of a function is a number, its \<open>name\<close>
  a string) is the runtime's, the parameter \<open>builtin\<close>.
\<close>

definition json_matrix ::
  "(string \<Rightarrow> string \<Rightarrow> jsval option) \<Rightarrow> (string \<Rightarrow> (string \<Rightarrow> int option) option)
     \<Rightarrow> conflictMatrix" where
  "json_matrix builtin own a =
     (case own a of
        Some row \<Rightarrow>
          Some (\<lambda>b. case row b of
                      Some n \<Rightarrow> Some (Number n)
                    | None \<Rightarrow> if b \<in> set object_prototype_keys then Some NonNumber else None)
      | None \<Rightarrow> if a \<in> set object_prototype_keys then Some (builtin a) else None)"

record team =
  members :: "person list"

record teamAssignment =
  teams :: "team list"
  conflictScore :: int

record optimizationResult =
  bestAssignments :: "teamAssignment list"
  totalCombinationsChecked :: nat
  executionTimeMs :: int

text \<open>
  The errors a call can end with: the \<open>Error\<close> thrown by the validation of
  \<open>optimizeTeams\<close>, and the \<open>TypeError\<close> of reading \<open>.id\<close> of \<open>undefined\<close>.
\<close>

datatype error = InvalidInput | TypeError

section \<open>The conflict scorer\<close>

text \<open>
  \<open>conflictMatrix[person1]?.[person2] ?? 0\<close>: the value read at row \<open>person1\<close>, column
  \<open>person2\<close>, and 0 when the row or the entry reads \<open>undefined\<close> or \<open>null\<close>.
\<close>

definition conflict_entry :: "conflictMatrix \<Rightarrow> string \<Rightarrow> string \<Rightarrow> jsval" where
  "conflict_entry conflictMatrix person1 person2 =
     (case conflictMatrix person1 of
        None \<Rightarrow> Number 0
      | Some row \<Rightarrow> (case row person2 of None \<Rightarrow> Number 0 | Some c \<Rightarrow> c))"

text \<open>
  The running total is a number until a value that is not a number is added: \<open>+\<close> then
  concatenates, and the total is from there on a string that does not read as a number
  (\<open>Str\<close>), whatever is added to it.
\<close>

datatype score = Num int | Str

definition add_conflict :: "score \<Rightarrow> jsval \<Rightarrow> score" where
  "add_conflict totalScore conflict =
     (case totalScore of
        Num t \<Rightarrow> (case conflict of Number c \<Rightarrow> Num (t + c) | NonNumber \<Rightarrow> Str)
      | Str \<Rightarrow> Str)"

text \<open>
  The three nested loops of \<open>calculateConflictScore\<close>: over the teams, over \<open>i\<close> from 0,
  over \<open>j\<close> from \<open>i + 1\<close>, adding to the running total.
\<close>

definition calculateConflictScore :: "person list list \<Rightarrow> conflictMatrix \<Rightarrow> score" where
  "calculateConflictScore teams_arg conflictMatrix =
     foldl (\<lambda>totalScore tm.
        foldl (\<lambda>totalScore i.
           foldl (\<lambda>totalScore j.
              add_conflict totalScore
                (conflict_entry conflictMatrix (person_id (tm ! i)) (person_id (tm ! j))))
             totalScore [i + 1 ..< length tm])
          totalScore [0 ..< length tm])
       (Num 0) teams_arg"

section \<open>The combination generator\<close>

text \<open>
  A generator that cannot throw is modelled by the list of the values it yields, in the
  order it yields them. \<open>k\<close> is a natural number: on a negative or fractional \<open>k\<close> the
  source never reaches \<open>k === 0\<close>, and such sizes are outside this model.
\<close>

fun combinations :: "'a list \<Rightarrow> nat \<Rightarrow> 'a list list" where
  "combinations array k =
     (if k = 0 then [[]]
      else if k > length array then []
      else concat (map (\<lambda>i. map ((#) (array ! i)) (combinations (drop (i + 1) array) (k - 1)))
                       [0 ..< length array - k + 1]))"

declare combinations.simps [simp del]

section \<open>The partition generator\<close>

text \<open>
  A generator that can throw is modelled by the values it yields before it ends, and the
  error it ends with, if any.
\<close>

type_synonym 'a gen = "'a list \<times> error option"

text \<open>
  Running generators one after the other, as the body of a \<open>for\<close> loop that yields does:
  the first throw ends the whole sequence.
\<close>

fun gen_seq :: "'a gen list \<Rightarrow> 'a gen" where
  "gen_seq [] = ([], None)"
| "gen_seq ((ys, Some e) # gs) = (ys, Some e)"
| "gen_seq ((ys, None) # gs) = (case gen_seq gs of (zs, r) \<Rightarrow> (ys @ zs, r))"

definition minIdInTeam :: "person list \<Rightarrow> string \<Rightarrow> string" where
  "minIdInTeam firstTeam initial =
     foldl (\<lambda>m p. if person_id p < m then person_id p else m) initial firstTeam"

fun generatePartitions :: "person list \<Rightarrow> nat list \<Rightarrow> string option \<Rightarrow> person list list gen" where
  "generatePartitions people [] lastMinId = ([[]], None)"
| "generatePartitions people (firstTeamSize # remainingTeamSizes) lastMinId =
     (let nextTeamHasSameSize =
            (case remainingTeamSizes of [] \<Rightarrow> False | s # _ \<Rightarrow> s = firstTeamSize)
      in gen_seq (map (\<lambda>firstTeam.
           (case firstTeam of
              [] \<Rightarrow> ([], Some TypeError)
            | p0 # _ \<Rightarrow>
               (let minId = minIdInTeam firstTeam (person_id p0) in
                if (case lastMinId of None \<Rightarrow> False | Some l \<Rightarrow> minId \<le> l) then ([], None)
                else
                  (let remaining = filter (\<lambda>p. p \<notin> set firstTeam) people;
                       nextMinId = (if nextTeamHasSameSize then Some minId else None)
                   in (case generatePartitions remaining remainingTeamSizes nextMinId of
                         (subs, r) \<Rightarrow> (map ((#) firstTeam) subs, r))))))
         (combinations people firstTeamSize)))"

section \<open>The optimization driver\<close>

text \<open>
  The local variables of the search loop. \<open>minScore\<close> starts at \<open>Infinity\<close>, which is
  \<open>None\<close> here: every score is below it, none equals it.
\<close>

record search =
  best :: "teamAssignment list"
  minScore :: "int option"
  combinationsChecked :: nat

definition search_init :: search where
  "search_init = \<lparr>best = [], minScore = None, combinationsChecked = 0\<rparr>"

definition assignment_of :: "person list list \<Rightarrow> int \<Rightarrow> teamAssignment" where
  "assignment_of part score =
     \<lparr>teams = map (\<lambda>ms. \<lparr>members = ms\<rparr>) part, conflictScore = score\<rparr>"

text \<open>
  One turn of the loop body of \<open>optimizeTeams\<close> (the progress log apart). A score that is
  a string and does not read as a number is neither below \<open>minScore\<close> nor equal to it: the
  partition is counted and not kept. So \<open>minScore\<close> is \<open>Infinity\<close> (\<open>None\<close>) or a number, and
  a recorded \<open>conflictScore\<close> is a number.
\<close>

definition search_step :: "conflictMatrix \<Rightarrow> int \<Rightarrow> search \<Rightarrow> person list list \<Rightarrow> search" where
  "search_step conflictMatrix maxResults st part =
     (let checked = combinationsChecked st + 1;
          score = calculateConflictScore part conflictMatrix
      in case score of
           Str \<Rightarrow> st\<lparr>combinationsChecked := checked\<rparr>
         | Num s \<Rightarrow>
             if (case minScore st of None \<Rightarrow> True | Some m \<Rightarrow> s < m)
             then \<lparr>best = [assignment_of part s], minScore = Some s,
                   combinationsChecked = checked\<rparr>
             else if minScore st = Some s \<and> int (length (best st)) < maxResults
             then \<lparr>best = best st @ [assignment_of part s], minScore = minScore st,
                   combinationsChecked = checked\<rparr>
             else st\<lparr>combinationsChecked := checked\<rparr>)"

text \<open>\<open>xs.slice(0, n)\<close>: a negative \<open>n\<close> counts from the end.\<close>

definition slice0 :: "'a list \<Rightarrow> int \<Rightarrow> 'a list" where
  "slice0 xs n = (if n < 0 then take (nat (int (length xs) + n)) xs else take (nat n) xs)"

text \<open>
  \<open>optimizeTeams\<close>, with the two readings of the clock as arguments and the optional
  \<open>maxResults\<close> as an option (\<open>None\<close> takes the default 10). \<open>optimizeTeams_run\<close> gives,
  beside the outcome, the value of the counter \<open>combinationsChecked\<close> when the call ends,
  by a return or by a throw.
\<close>

definition optimizeTeams_run ::
  "int \<Rightarrow> int \<Rightarrow> person list \<Rightarrow> nat list \<Rightarrow> conflictMatrix \<Rightarrow> int option
     \<Rightarrow> nat \<times> (error + optimizationResult)" where
  "optimizeTeams_run startTime endTime people teamSizes conflictMatrix maxResultsArg =
     (let maxResults = (case maxResultsArg of None \<Rightarrow> 10 | Some n \<Rightarrow> n);
          totalPeopleNeeded = foldl (\<lambda>sum size. sum + size) 0 teamSizes
      in if totalPeopleNeeded \<noteq> length people then (0, Inl InvalidInput)
         else
           (case generatePartitions people teamSizes None of
              (partitions, r) \<Rightarrow>
                (let st = foldl (search_step conflictMatrix maxResults) search_init partitions
                 in (case r of
                       Some e \<Rightarrow> (combinationsChecked st, Inl e)
                     | None \<Rightarrow>
                         (combinationsChecked st,
                          Inr \<lparr>bestAssignments = slice0 (best st) maxResults,
                               totalCombinationsChecked = combinationsChecked st,
                               executionTimeMs = endTime - startTime\<rparr>)))))"

definition optimizeTeams ::
  "int \<Rightarrow> int \<Rightarrow> person list \<Rightarrow> nat list \<Rightarrow> conflictMatrix \<Rightarrow> int option
     \<Rightarrow> error + optimizationResult" where
  "optimizeTeams startTime endTime people teamSizes conflictMatrix maxResultsArg =
     snd (optimizeTeams_run startTime endTime people teamSizes conflictMatrix maxResultsArg)"

section \<open>Notions used to state the properties\<close>

text \<open>
  The test of the symmetry breaking on a candidate team, and the threshold handed to the
  next slot, as \<open>generatePartitions\<close> computes them for a non-empty candidate.
\<close>

definition team_blocked :: "string option \<Rightarrow> person list \<Rightarrow> bool" where
  "team_blocked lastMinId T =
     (case lastMinId of None \<Rightarrow> False | Some l \<Rightarrow> minIdInTeam T (person_id (hd T)) \<le> l)"

definition next_min :: "nat \<Rightarrow> nat list \<Rightarrow> person list \<Rightarrow> string option" where
  "next_min s rest T =
     (if (case rest of [] \<Rightarrow> False | s' # _ \<Rightarrow> s' = s)
      then Some (minIdInTeam T (person_id (hd T))) else None)"

text \<open>
  A valid input: every team size is positive, the sizes sum to the number of people, and
  the ids are unique.
\<close>

definition valid_input :: "person list \<Rightarrow> nat list \<Rightarrow> bool" where
  "valid_input people teamSizes \<longleftrightarrow>
     (\<forall>s \<in> set teamSizes. 0 < s) \<and> sum_list teamSizes = length people
     \<and> distinct (map person_id people)"

text \<open>
  The sum of \<open>c\<close> over the pairs of positions \<open>i < j\<close> of a team, as the two inner loops
  of the scorer visit them.
\<close>

definition pair_sum :: "(string \<Rightarrow> string \<Rightarrow> int) \<Rightarrow> person list \<Rightarrow> int" where
  "pair_sum c tm = (\<Sum>i \<leftarrow> [0 ..< length tm]. \<Sum>j \<leftarrow> [i + 1 ..< length tm].
          c (person_id (tm ! i)) (person_id (tm ! j)))"

text \<open>The number an entry adds, and whether it is not a number (counted as 1).\<close>

definition entry_number :: "conflictMatrix \<Rightarrow> string \<Rightarrow> string \<Rightarrow> int" where
  "entry_number m a b = (case conflict_entry m a b of Number n \<Rightarrow> n | NonNumber \<Rightarrow> 0)"

definition entry_other :: "conflictMatrix \<Rightarrow> string \<Rightarrow> string \<Rightarrow> int" where
  "entry_other m a b = (case conflict_entry m a b of Number n \<Rightarrow> 0 | NonNumber \<Rightarrow> 1)"

text \<open>
  In the words of the scorer's comment (\<open>default to 0 if not found\<close>): the count recorded in
  the rows \<open>own\<close> for row \<open>a\<close>, column \<open>b\<close>, and 0 where none is recorded.
\<close>

definition recorded_conflict ::
  "(string \<Rightarrow> (string \<Rightarrow> int option) option) \<Rightarrow> string \<Rightarrow> string \<Rightarrow> int" where
  "recorded_conflict own a b =
     (case own a of None \<Rightarrow> 0 | Some row \<Rightarrow> (case row b of None \<Rightarrow> 0 | Some n \<Rightarrow> n))"

text \<open>Every entry read between two of the people is a number.\<close>

definition numeric_on :: "conflictMatrix \<Rightarrow> person list \<Rightarrow> bool" where
  "numeric_on m people \<longleftrightarrow>
     (\<forall>p \<in> set people. \<forall>q \<in> set people.
        conflict_entry m (person_id p) (person_id q) \<noteq> NonNumber)"

text \<open>
  The scores that are numbers, among the scores of a list of partitions, and the partitions
  of minimal score: those whose score is a number that no other score, of those that are
  numbers, is below; in the order of the list.
\<close>

definition numeric_scores :: "conflictMatrix \<Rightarrow> person list list list \<Rightarrow> int list" where
  "numeric_scores m ps =
     concat (map (\<lambda>p. case calculateConflictScore p m of Num s \<Rightarrow> [s] | Str \<Rightarrow> []) ps)"

definition minimal_partitions ::
  "conflictMatrix \<Rightarrow> person list list list \<Rightarrow> person list list list" where
  "minimal_partitions m ps =
     filter (\<lambda>p. case calculateConflictScore p m of
                   Str \<Rightarrow> False
                 | Num s \<Rightarrow> (\<forall>s' \<in> set (numeric_scores m ps). s \<le> s')) ps"

text \<open>
  In the words of the specification, to compare with what the generator yields: a
  canonical partition is an ordered sequence of teams, one per slot and of the declared
  size, every person in exactly one team, whose smallest ids ascend over consecutive slots
  of equal size. A team is written with its members in the order of the input.
\<close>

definition team_min_id :: "person list \<Rightarrow> string" where
  "team_min_id t = Min (person_id ` set t)"

fun ascending_min_ids :: "person list list \<Rightarrow> bool" where
  "ascending_min_ids (t1 # t2 # ts) =
     ((length t1 = length t2 \<longrightarrow> team_min_id t1 < team_min_id t2) \<and> ascending_min_ids (t2 # ts))"
| "ascending_min_ids ts = True"

definition canonical_partition :: "person list \<Rightarrow> nat list \<Rightarrow> person list list \<Rightarrow> bool" where
  "canonical_partition people teamSizes ts \<longleftrightarrow>
     map length ts = teamSizes \<and> (\<forall>t \<in> set ts. subseq t people)
     \<and> distinct (concat ts) \<and> set (concat ts) = set people \<and> ascending_min_ids ts"

text \<open>The first team of a partition lies above the threshold handed to its slot.\<close>

definition above_threshold :: "string option \<Rightarrow> person list list \<Rightarrow> bool" where
  "above_threshold lastMinId ts =
     (case lastMinId of None \<Rightarrow> True
      | Some l \<Rightarrow> (case ts of [] \<Rightarrow> True | t # _ \<Rightarrow> l < team_min_id t))"

section \<open>Notions used to count the partitions\<close>








section \<open>Properties of the combination generator\<close>

text \<open>The loop over the first selected position is the usual recursion over the list.\<close>

lemma combinations_0 [simp]: "combinations xs 0 = [[]]"
  by (simp add: combinations.simps)

lemma combinations_Nil [simp]: "combinations [] (Suc k) = []"
  by (simp add: combinations.simps)

lemma upt_Suc_shift: "[0 ..< Suc n] = 0 # map Suc [0 ..< n]"
  by (simp add: upt_conv_Cons map_Suc_upt del: upt_Suc)

lemma combinations_Cons [simp]:
  "combinations (x # xs) (Suc k) = map ((#) x) (combinations xs k) @ combinations xs (Suc k)"
proof (cases "k \<le> length xs")
  case False
  then show ?thesis by (simp add: combinations.simps [of _ "Suc k"] combinations.simps [of xs k])
next
  case le: True
  have l: "combinations (x # xs) (Suc k) =
      concat (map (\<lambda>i. map ((#) ((x # xs) ! i)) (combinations (drop (i + 1) (x # xs)) k))
                  [0 ..< Suc (length xs - k)])"
    using le by (subst combinations.simps) (simp add: Suc_diff_le)
  have r: "combinations xs (Suc k) =
      concat (map (\<lambda>i. map ((#) (xs ! i)) (combinations (drop (i + 1) xs) k))
                  [0 ..< length xs - k])"
  proof (cases "k = length xs")
    case True
    then show ?thesis by (subst combinations.simps) simp
  next
    case False
    with le have "Suc k \<le> length xs" by simp
    then show ?thesis by (subst combinations.simps) (simp add: Suc_diff_Suc)
  qed
  show ?thesis
    unfolding l r upt_Suc_shift by (simp add: comp_def)
qed

lemma combinations_too_many: "length xs < k \<Longrightarrow> combinations xs k = []"
  by (simp add: combinations.simps)

lemma length_combinations: "length (combinations xs k) = length xs choose k"
proof (induction xs arbitrary: k)
  case Nil
  then show ?case by (cases k) simp_all
next
  case (Cons x xs)
  then show ?case by (cases k) simp_all
qed

lemma combinations_length: "c \<in> set (combinations xs k) \<Longrightarrow> length c = k"
proof (induction xs arbitrary: k c)
  case Nil
  then show ?case by (cases k) simp_all
next
  case (Cons x xs)
  then show ?case by (cases k) auto
qed

lemma combinations_subseq: "c \<in> set (combinations xs k) \<Longrightarrow> subseq c xs"
proof (induction xs arbitrary: k c)
  case Nil
  then show ?case by (cases k) simp_all
next
  case (Cons x xs)
  then show ?case by (cases k) auto
qed

lemma subseq_set_subset: "subseq c xs \<Longrightarrow> set c \<subseteq> set xs"
  by (auto elim: list_emb_set)

lemma subseq_combinations: "subseq c xs \<Longrightarrow> c \<in> set (combinations xs (length c))"
proof (induction xs arbitrary: c)
  case Nil
  then have "c = []" by (rule list_emb_Nil2)
  then show ?case by simp
next
  case (Cons x xs)
  show ?case
  proof (cases c)
    case Nil
    then show ?thesis by simp
  next
    case c: (Cons y ys)
    show ?thesis
    proof (cases "x = y")
      case True
      with Cons.prems c have "subseq ys xs" by simp
      from Cons.IH [OF this] True c show ?thesis by simp
    next
      case False
      with Cons.prems c have "subseq c xs" by simp
      from Cons.IH [OF this] c show ?thesis by simp
    qed
  qed
qed

lemma set_combinations: "set (combinations xs k) = {c. subseq c xs \<and> length c = k}"
  using combinations_subseq combinations_length subseq_combinations by blast

lemma distinct_combinations: "distinct xs \<Longrightarrow> distinct (combinations xs k)"
proof (induction xs arbitrary: k)
  case Nil
  then show ?case by (cases k) simp_all
next
  case (Cons x xs)
  show ?case
  proof (cases k)
    case 0
    then show ?thesis by simp
  next
    case (Suc j)
    have "x \<notin> set c" if "c \<in> set (combinations xs (Suc j))" for c
      using subseq_set_subset [OF combinations_subseq [OF that]] Cons.prems by auto
    then have "set (map ((#) x) (combinations xs j)) \<inter> set (combinations xs (Suc j)) = {}"
      by fastforce
    with Cons Suc show ?thesis
      by (simp add: distinct_map inj_on_def)
  qed
qed

lemma combinations_map: "combinations (map f xs) k = map (map f) (combinations xs k)"
proof (induction xs arbitrary: k)
  case Nil
  then show ?case by (cases k) simp_all
next
  case (Cons x xs)
  then show ?case by (cases k) simp_all
qed

lemma combinations_by_position:
  "combinations xs k = map (map ((!) xs)) (combinations [0 ..< length xs] k)"
  using combinations_map [of "(!) xs" "[0 ..< length xs]" k] by (simp add: map_nth)

lemma subseq_sorted_wrt: "subseq c xs \<Longrightarrow> sorted_wrt P xs \<Longrightarrow> sorted_wrt P c"
proof (induction rule: list_emb.induct)
  case (list_emb_Nil ys)
  then show ?case by simp
next
  case (list_emb_Cons xs ys y)
  then show ?case by simp
next
  case (list_emb_Cons2 x y xs ys)
  then show ?case using subseq_set_subset [of xs ys] by auto
qed

text \<open>
  Claim C7. \<open>combinations S 0\<close> yields the empty subset and nothing else, for every \<open>S\<close>;
  \<open>combinations S k\<close> yields nothing when \<open>k\<close> exceeds the length of \<open>S\<close>, and
  \<open>C(|S|, k)\<close> results otherwise. Each result has \<open>k\<close> elements in the order they have
  in \<open>S\<close>. The results are the selections of pairwise different, ascending lists of
  positions of \<open>S\<close>; they are pairwise different as lists too when \<open>S\<close> has no repeated
  element.
\<close>

theorem combinations_yields:
  "combinations S 0 = [[]]
   \<and> (length S < k \<longrightarrow> combinations S k = [])
   \<and> (k \<le> length S \<longrightarrow> length (combinations S k) = length S choose k)
   \<and> (\<forall>c \<in> set (combinations S k). length c = k \<and> subseq c S)
   \<and> combinations S k = map (map ((!) S)) (combinations [0 ..< length S] k)
   \<and> distinct (combinations [0 ..< length S] k)
   \<and> (\<forall>c \<in> set (combinations [0 ..< length S] k). sorted_wrt (<) c \<and> set c \<subseteq> {..< length S})
   \<and> (distinct S \<longrightarrow> distinct (combinations S k))"
proof -
  have idx: "sorted_wrt (<) c \<and> set c \<subseteq> {..< length S}"
    if "c \<in> set (combinations [0 ..< length S] k)" for c
  proof -
    from that have s: "subseq c [0 ..< length S]" by (rule combinations_subseq)
    have "sorted_wrt (<) [0 ..< length S]" by simp
    with s have "sorted_wrt (<) c" by (rule subseq_sorted_wrt)
    moreover from subseq_set_subset [OF s] have "set c \<subseteq> {..< length S}" by auto
    ultimately show ?thesis ..
  qed
  have pos: "combinations S k = map (map ((!) S)) (combinations [0 ..< length S] k)"
    by (rule combinations_by_position)
  have members: "\<forall>c \<in> set (combinations S k). length c = k \<and> subseq c S"
    by (simp add: combinations_length combinations_subseq)
  have dist: "distinct S \<longrightarrow> distinct (combinations S k)"
    by (simp add: distinct_combinations)
  have dist_idx: "distinct (combinations [0 ..< length S] k)"
    by (simp add: distinct_combinations)
  have few: "length S < k \<longrightarrow> combinations S k = []"
    by (simp add: combinations_too_many)
  have count: "k \<le> length S \<longrightarrow> length (combinations S k) = length S choose k"
    by (simp add: length_combinations)
  from idx have idx': "\<forall>c \<in> set (combinations [0 ..< length S] k).
      sorted_wrt (<) c \<and> set c \<subseteq> {..< length S}"
    by blast
  from combinations_0 few count members pos dist_idx idx' dist show ?thesis
    by blast
qed

theorem combinations_yields_witness:
  "combinations [7, 8, 9 :: nat] 2 = [[7, 8], [7, 9], [8, 9]]
   \<and> length (combinations [7, 8, 9 :: nat] 2) = 3 choose 2
   \<and> combinations [7, 8, 9 :: nat] 5 = []
   \<and> distinct (combinations [7, 8, 9 :: nat] 2)"
  using combinations_yields [of "[7, 8, 9 :: nat]" 2] combinations_yields [of "[7, 8, 9 :: nat]" 5]
  by (simp add: eval_nat_numeral)

section \<open>Properties of the search loop\<close>

lemma search_step_checked:
  "combinationsChecked (search_step m maxResults st p) = Suc (combinationsChecked st)"
  by (simp add: search_step_def Let_def split: score.split)

lemma foldl_search_checked:
  "combinationsChecked (foldl (search_step m maxResults) st ps) = combinationsChecked st + length ps"
  by (induction ps arbitrary: st) (simp_all add: search_step_checked)

lemma take_snoc_cap:
  assumes "T \<noteq> []"
  shows "take (max (Suc 0) (nat n)) (T @ [p]) =
    (if int (length (take (max (Suc 0) (nat n)) T)) < n then take (max (Suc 0) (nat n)) T @ [p]
     else take (max (Suc 0) (nat n)) T)"
proof (cases "length T < max (Suc 0) (nat n)")
  case True
  moreover from assms have "1 \<le> length T" by (cases T) simp_all
  ultimately have "int (length T) < n" by linarith
  with True show ?thesis by simp
next
  case False
  then have a: "\<not> int (max (Suc 0) (nat n)) < n" by linarith
  from False have b: "max (Suc 0) (nat n) \<le> length T" by linarith
  then have c: "min (length T) (max (Suc 0) (nat n)) = max (Suc 0) (nat n)" by linarith
  have "take (max (Suc 0) (nat n)) (T @ [p]) = take (max (Suc 0) (nat n)) T"
    using b by (simp only: take_append) simp
  moreover have "length (take (max (Suc 0) (nat n)) T) = max (Suc 0) (nat n)"
    by (simp only: length_take c)
  ultimately show ?thesis using a by (simp only: if_False)
qed

text \<open>A partition whose score is not a number is counted, and changes nothing else.\<close>

lemma search_step_Str:
  "calculateConflictScore p m = Str \<Longrightarrow>
   search_step m n st p = st\<lparr>combinationsChecked := Suc (combinationsChecked st)\<rparr>"
  by (simp add: search_step_def Let_def)

lemma search_step_counter:
  "search_step m n (st\<lparr>combinationsChecked := c\<rparr>) p =
     (search_step m n st p)\<lparr>combinationsChecked := Suc c\<rparr>"
  by (simp add: search_step_def Let_def split: score.split option.split)

lemma foldl_search_numeric:
  "foldl (search_step m n) st ps =
     (foldl (search_step m n) st (filter (\<lambda>p. calculateConflictScore p m \<noteq> Str) ps))
       \<lparr>combinationsChecked := combinationsChecked st + length ps\<rparr>"
proof (induction ps rule: rev_induct)
  case Nil
  then show ?case by simp
next
  case (snoc p ps)
  define F where "F = foldl (search_step m n) st (filter (\<lambda>p. calculateConflictScore p m \<noteq> Str) ps)"
  have st: "foldl (search_step m n) st (ps @ [p]) =
      search_step m n (F\<lparr>combinationsChecked := combinationsChecked st + length ps\<rparr>) p"
    using snoc.IH by (simp add: F_def)
  show ?case
  proof (cases "calculateConflictScore p m = Str")
    case True
    then show ?thesis unfolding st by (simp add: search_step_Str F_def)
  next
    case False
    then show ?thesis unfolding st by (simp add: search_step_counter F_def)
  qed
qed

lemma search_step_Some:
  assumes "calculateConflictScore p m = Num s"
  shows "search_step m n \<lparr>best = b, minScore = Some m0, combinationsChecked = c\<rparr> p =
     (if s < m0
      then \<lparr>best = [assignment_of p s], minScore = Some s, combinationsChecked = Suc c\<rparr>
      else if s = m0 \<and> int (length b) < n
      then \<lparr>best = b @ [assignment_of p s], minScore = Some m0, combinationsChecked = Suc c\<rparr>
      else \<lparr>best = b, minScore = Some m0, combinationsChecked = Suc c\<rparr>)"
  using assms by (auto simp: search_step_def Let_def)

lemma search_step_init:
  assumes "calculateConflictScore p m = Num s"
  shows "search_step m n search_init p =
     \<lparr>best = [assignment_of p s], minScore = Some s, combinationsChecked = Suc 0\<rparr>"
  using assms by (simp add: search_step_def search_init_def Let_def)

text \<open>The state of the loop after partitions whose scores are all numbers, \<open>sc\<close>.\<close>

lemma foldl_search_numbers:
  assumes "ps \<noteq> []" and "\<forall>p \<in> set ps. calculateConflictScore p m = Num (sc p)"
  shows "foldl (search_step m maxResults) search_init ps =
    \<lparr>best = take (max (Suc 0) (nat maxResults))
              (map (\<lambda>p. assignment_of p (sc p))
                 (filter (\<lambda>p. sc p = Min (sc ` set ps)) ps)),
     minScore = Some (Min (sc ` set ps)),
     combinationsChecked = length ps\<rparr>"
  using assms
proof (induction ps rule: rev_induct)
  case Nil
  then show ?case by simp
next
  case (snoc p ps)
  define k where "k = max (Suc 0) (nat maxResults)"
  define a where "a = (\<lambda>p. assignment_of p (sc p))"
  from snoc.prems have scp: "calculateConflictScore p m = Num (sc p)"
    and scps: "\<forall>p \<in> set ps. calculateConflictScore p m = Num (sc p)" by simp_all
  show ?case
  proof (cases "ps = []")
    case True
    then show ?thesis
      by (simp add: search_step_init [OF scp])
  next
    case False
    define m0 where "m0 = Min (sc ` set ps)"
    define T where "T = filter (\<lambda>q. sc q = m0) ps"
    have fin: "finite (sc ` set ps)" and ne: "sc ` set ps \<noteq> {}" using False by simp_all
    have Min_snoc: "Min (sc ` set (ps @ [p])) = min (sc p) m0"
      using fin ne by (simp add: m0_def)
    have ge: "m0 \<le> sc q" if "q \<in> set ps" for q using that fin by (simp add: m0_def)
    from Min_in [OF fin ne] obtain q0 where q0: "q0 \<in> set ps" "sc q0 = m0"
      by (auto simp: m0_def)
    then have Tne: "T \<noteq> []" by (auto simp: filter_empty_conv T_def)
    have "foldl (search_step m maxResults) search_init (ps @ [p]) =
        search_step m maxResults (foldl (search_step m maxResults) search_init ps) p"
      by simp
    also have "foldl (search_step m maxResults) search_init ps =
        \<lparr>best = take k (map a T), minScore = Some m0, combinationsChecked = length ps\<rparr>"
      unfolding snoc.IH [OF False scps] by (simp add: k_def a_def m0_def T_def)
    also have "search_step m maxResults \<dots> p =
        (if sc p < m0
         then \<lparr>best = [a p], minScore = Some (sc p), combinationsChecked = Suc (length ps)\<rparr>
         else if sc p = m0 \<and> int (length (take k (map a T))) < maxResults
         then \<lparr>best = take k (map a T) @ [a p], minScore = Some m0,
               combinationsChecked = Suc (length ps)\<rparr>
         else \<lparr>best = take k (map a T), minScore = Some m0,
               combinationsChecked = Suc (length ps)\<rparr>)"
      unfolding search_step_Some [OF scp] by (simp add: a_def)
    finally have st: "foldl (search_step m maxResults) search_init (ps @ [p]) =
        (if sc p < m0
         then \<lparr>best = [a p], minScore = Some (sc p), combinationsChecked = Suc (length ps)\<rparr>
         else if sc p = m0 \<and> int (length (take k (map a T))) < maxResults
         then \<lparr>best = take k (map a T) @ [a p], minScore = Some m0,
               combinationsChecked = Suc (length ps)\<rparr>
         else \<lparr>best = take k (map a T), minScore = Some m0,
               combinationsChecked = Suc (length ps)\<rparr>)" .
    have goal: "foldl (search_step m maxResults) search_init (ps @ [p]) =
       \<lparr>best = take k (map a (filter (\<lambda>q. sc q = Min (sc ` set (ps @ [p]))) (ps @ [p]))),
        minScore = Some (Min (sc ` set (ps @ [p]))),
        combinationsChecked = length (ps @ [p])\<rparr>"
    proof -
      consider (less) "sc p < m0" | (eq) "sc p = m0" | (greater) "m0 < sc p" by linarith
      then show ?thesis
      proof cases
        case less
        have "sc q \<noteq> sc p" if "q \<in> set ps" for q using ge [OF that] less by simp
        then have "filter (\<lambda>q. sc q = sc p) ps = []" by (simp add: filter_empty_conv)
        moreover have "0 < k" by (simp add: k_def)
        ultimately show ?thesis using less unfolding st Min_snoc
          by (simp add: min_def)
      next
        case eq
        have f: "filter (\<lambda>q. sc q = m0) (ps @ [p]) = T @ [p]" using eq by (simp add: T_def)
        have Tne': "map a T \<noteq> []" using Tne by simp
        have "take k (map a T @ [a p]) =
          (if int (length (take k (map a T))) < maxResults then take k (map a T) @ [a p]
           else take k (map a T))"
          unfolding k_def by (rule take_snoc_cap [OF Tne'])
        then have tk: "take k (map a (T @ [p])) =
          (if int (length (take k (map a T))) < maxResults then take k (map a T) @ [a p]
           else take k (map a T))"
          by (simp only: map_append list.map)
        have mn: "min (sc p) m0 = m0" using eq by simp
        show ?thesis unfolding st Min_snoc mn f tk using eq
          by (simp del: length_take)
      next
        case greater
        then have "filter (\<lambda>q. sc q = m0) (ps @ [p]) = T" by (simp add: T_def)
        then show ?thesis using greater unfolding st Min_snoc
          by (simp add: min_def)
      qed
    qed
    then show ?thesis by (simp add: k_def a_def)
  qed
qed

text \<open>The number of a score that is one.\<close>

lemma numeric_scores_map:
  "numeric_scores m ps =
     map (\<lambda>p. case calculateConflictScore p m of Num s \<Rightarrow> s | Str \<Rightarrow> 0)
       (filter (\<lambda>p. calculateConflictScore p m \<noteq> Str) ps)"
  by (induction ps) (simp_all add: numeric_scores_def split: score.split)

lemma numeric_scores_set:
  "set (numeric_scores m ps) = {s. \<exists>p \<in> set ps. calculateConflictScore p m = Num s}"
  by (auto simp: numeric_scores_def split: score.splits)

lemma minimal_partitions_filter:
  assumes "numeric_scores m ps \<noteq> []"
  shows "minimal_partitions m ps =
     filter (\<lambda>p. calculateConflictScore p m = Num (Min (set (numeric_scores m ps)))) ps"
proof -
  have "(case calculateConflictScore p m of Str \<Rightarrow> False
          | Num s \<Rightarrow> (\<forall>s' \<in> set (numeric_scores m ps). s \<le> s'))
      \<longleftrightarrow> calculateConflictScore p m = Num (Min (set (numeric_scores m ps)))"
    if "p \<in> set ps" for p
  proof (cases "calculateConflictScore p m")
    case Str
    then show ?thesis by simp
  next
    case (Num s)
    with that have "s \<in> set (numeric_scores m ps)" by (auto simp: numeric_scores_set)
    then have "(\<forall>s' \<in> set (numeric_scores m ps). s \<le> s') \<longleftrightarrow> s = Min (set (numeric_scores m ps))"
      by (metis List.finite_set Min_eqI Min_le)
    with Num show ?thesis by simp
  qed
  then show ?thesis unfolding minimal_partitions_def by (rule filter_cong [OF refl])
qed

lemma minimal_partitions_none:
  "numeric_scores m ps = [] \<Longrightarrow> minimal_partitions m ps = []"
  by (auto simp: minimal_partitions_def filter_empty_conv numeric_scores_def split: score.splits)

lemma foldl_search_state:
  "foldl (search_step m maxResults) search_init ps =
    \<lparr>best = take (max (Suc 0) (nat maxResults))
              (map (\<lambda>p. assignment_of p (Min (set (numeric_scores m ps))))
                 (minimal_partitions m ps)),
     minScore = (if numeric_scores m ps = [] then None
                 else Some (Min (set (numeric_scores m ps)))),
     combinationsChecked = length ps\<rparr>"
proof -
  define sc where "sc = (\<lambda>p. case calculateConflictScore p m of Num s \<Rightarrow> s | Str \<Rightarrow> 0)"
  define qs where "qs = filter (\<lambda>p. calculateConflictScore p m \<noteq> Str) ps"
  have ns: "numeric_scores m ps = map sc qs"
    by (simp add: numeric_scores_map sc_def qs_def)
  have fold: "foldl (search_step m maxResults) search_init ps =
      (foldl (search_step m maxResults) search_init qs)\<lparr>combinationsChecked := length ps\<rparr>"
    using foldl_search_numeric [of m maxResults search_init ps]
    by (simp add: qs_def search_init_def)
  show ?thesis
  proof (cases "qs = []")
    case True
    then have "numeric_scores m ps = []" by (simp add: ns)
    then show ?thesis unfolding fold using True
      by (simp add: minimal_partitions_none search_init_def)
  next
    case False
    then have ne: "numeric_scores m ps \<noteq> []" by (simp add: ns)
    have num: "\<forall>p \<in> set qs. calculateConflictScore p m = Num (sc p)"
      by (auto simp: qs_def sc_def split: score.splits)
    have M: "Min (set (numeric_scores m ps)) = Min (sc ` set qs)" by (simp add: ns)
    have "minimal_partitions m ps =
        filter (\<lambda>p. calculateConflictScore p m = Num (Min (sc ` set qs))) ps"
      using minimal_partitions_filter [OF ne] by (simp only: M)
    also have "\<dots> = filter (\<lambda>p. sc p = Min (sc ` set qs)) qs"
      unfolding qs_def filter_filter
      by (rule filter_cong [OF refl]) (auto simp: sc_def split: score.splits)
    finally have mp: "minimal_partitions m ps = filter (\<lambda>p. sc p = Min (sc ` set qs)) qs" .
    have mm: "map (\<lambda>p. assignment_of p (sc p)) (filter (\<lambda>p. sc p = Min (sc ` set qs)) qs) =
        map (\<lambda>p. assignment_of p (Min (sc ` set qs))) (filter (\<lambda>p. sc p = Min (sc ` set qs)) qs)"
      by (rule map_cong [OF refl]) simp
    show ?thesis unfolding fold foldl_search_numbers [OF False num] mp M mm
      using ne by simp
  qed
qed

lemma slice0_take_cap: "slice0 (take (max (Suc 0) (nat n)) xs) n = take (nat n) xs"
  by (cases "n < 0") (auto simp: slice0_def min_def max_def)

lemma optimizeTeams_run_ok:
  assumes "sum_list teamSizes = length people"
    and "generatePartitions people teamSizes None = (ps, None)"
  shows "optimizeTeams_run t0 t1 people teamSizes m (Some maxResults) =
    (length ps,
     Inr \<lparr>bestAssignments = take (nat maxResults)
            (map (\<lambda>p. assignment_of p (Min (set (numeric_scores m ps))))
               (minimal_partitions m ps)),
          totalCombinationsChecked = length ps,
          executionTimeMs = t1 - t0\<rparr>)"
proof -
  have s: "foldl (\<lambda>sum size. sum + size) 0 teamSizes = sum_list teamSizes"
    by (simp add: foldl_conv_fold fold_plus_sum_list_rev add.commute)
  from assms s show ?thesis
    by (simp add: optimizeTeams_run_def foldl_search_state slice0_take_cap Let_def)
qed

section \<open>Properties of the partition generator\<close>

lemma gen_seq_no_throw:
  "(\<And>x. x \<in> set xs \<Longrightarrow> f x = (g x, None)) \<Longrightarrow> gen_seq (map f xs) = (concat (map g xs), None)"
  by (induction xs) simp_all

lemma foldl_min_id:
  "foldl (\<lambda>m p. if person_id p < m then person_id p else m) i T
     = Min (insert i (person_id ` set T))"
proof (induction T arbitrary: i)
  case Nil
  then show ?case by simp
next
  case (Cons p T)
  have m: "(if person_id p < i then person_id p else i) = min i (person_id p)"
    by (auto simp: min_def)
  have "Min (insert (min i (person_id p)) (person_id ` set T))
      = Min (insert i (insert (person_id p) (person_id ` set T)))"
    by (cases "T = []") (simp_all add: min.assoc)
  with Cons.IH [of "min i (person_id p)"] show ?case
    by (simp only: foldl.simps m list.set image_insert)
qed

lemma minIdInTeam_Min: "minIdInTeam T i = Min (insert i (person_id ` set T))"
  by (simp only: minIdInTeam_def foldl_min_id)

lemma minIdInTeam_hd:
  "T \<noteq> [] \<Longrightarrow> minIdInTeam T (person_id (hd T)) = Min (person_id ` set T)"
  by (cases T) (simp_all add: minIdInTeam_Min insert_absorb)

lemma generatePartitions_Cons_gen:
  "generatePartitions people (s # rest) lastMinId =
     gen_seq (map (\<lambda>T.
        if T = [] then ([], Some TypeError)
        else if team_blocked lastMinId T then ([], None)
        else (map ((#) T) (fst (generatePartitions (filter (\<lambda>p. p \<notin> set T) people) rest
                                  (next_min s rest T))),
              snd (generatePartitions (filter (\<lambda>p. p \<notin> set T) people) rest
                                  (next_min s rest T))))
       (combinations people s))"
proof -
  have "(case T of
              [] \<Rightarrow> ([], Some TypeError)
            | p0 # _ \<Rightarrow>
               (let minId = minIdInTeam T (person_id p0) in
                if (case lastMinId of None \<Rightarrow> False | Some l \<Rightarrow> minId \<le> l) then ([], None)
                else
                  (let remaining = filter (\<lambda>p. p \<notin> set T) people;
                       nextMinId = (if (case rest of [] \<Rightarrow> False | s' # _ \<Rightarrow> s' = s)
                                    then Some minId else None)
                   in (case generatePartitions remaining rest nextMinId of
                         (subs, r) \<Rightarrow> (map ((#) T) subs, r))))) =
        (if T = [] then ([], Some TypeError)
        else if team_blocked lastMinId T then ([], None)
        else (map ((#) T) (fst (generatePartitions (filter (\<lambda>p. p \<notin> set T) people) rest
                                  (next_min s rest T))),
              snd (generatePartitions (filter (\<lambda>p. p \<notin> set T) people) rest
                                  (next_min s rest T))))" for T
    by (cases T) (simp_all add: Let_def team_blocked_def next_min_def case_prod_beta split: option.split)
  then show ?thesis
    by (simp only: generatePartitions.simps Let_def)
qed

lemma generatePartitions_no_throw:
  "\<forall>s \<in> set teamSizes. 0 < s \<Longrightarrow> snd (generatePartitions people teamSizes lastMinId) = None"
proof (induction teamSizes arbitrary: people lastMinId)
  case Nil
  then show ?case by simp
next
  case (Cons s rest)
  have ne: "T \<noteq> []" if "T \<in> set (combinations people s)" for T
    using combinations_length [OF that] Cons.prems by auto
  have rest: "snd (generatePartitions ppl rest l) = None" for ppl l
    using Cons by simp
  show ?case
    unfolding generatePartitions_Cons_gen
    by (subst gen_seq_no_throw [where g = "\<lambda>T.
          if team_blocked lastMinId T then []
          else map ((#) T) (fst (generatePartitions
                 (filter (\<lambda>p. p \<notin> set T) people) rest (next_min s rest T)))"])
      (simp_all add: ne rest)
qed

lemma generatePartitions_Cons:
  assumes "0 < s" and "\<forall>x \<in> set rest. 0 < x"
  shows "fst (generatePartitions people (s # rest) lastMinId) =
     concat (map (\<lambda>T.
          if team_blocked lastMinId T then []
          else map ((#) T) (fst (generatePartitions
                 (filter (\<lambda>p. p \<notin> set T) people) rest (next_min s rest T))))
       (combinations people s))"
proof -
  have ne: "T \<noteq> []" if "T \<in> set (combinations people s)" for T
    using combinations_length [OF that] assms by auto
  show ?thesis
    unfolding generatePartitions_Cons_gen
    by (subst gen_seq_no_throw [where g = "\<lambda>T.
          if team_blocked lastMinId T then []
          else map ((#) T) (fst (generatePartitions
                 (filter (\<lambda>p. p \<notin> set T) people) rest (next_min s rest T)))"])
      (simp_all add: ne generatePartitions_no_throw [OF assms(2)])
qed

lemma subseq_distinct': "subseq c xs \<Longrightarrow> distinct xs \<Longrightarrow> distinct c"
proof (induction rule: list_emb.induct)
  case (list_emb_Cons2 x y xs ys)
  then show ?case using subseq_set_subset [of xs ys] by auto
qed simp_all

lemma subseq_filter_mem: "subseq c xs \<Longrightarrow> distinct xs \<Longrightarrow> filter (\<lambda>x. x \<in> set c) xs = c"
proof (induction rule: list_emb.induct)
  case (list_emb_Nil ys)
  then show ?case by simp
next
  case (list_emb_Cons xs ys y)
  then have "y \<notin> set xs" using subseq_set_subset [of xs ys] by auto
  with list_emb_Cons show ?case by simp
next
  case (list_emb_Cons2 x y xs ys)
  then have "filter (\<lambda>z. z = y \<or> z \<in> set xs) ys = filter (\<lambda>z. z \<in> set xs) ys"
    by (intro filter_cong) auto
  with list_emb_Cons2 show ?case by simp
qed

lemma mset_split_team:
  assumes "subseq T people" and "distinct people"
  shows "mset T + mset (filter (\<lambda>p. p \<notin> set T) people) = mset people"
proof -
  have "mset (filter (\<lambda>p. p \<in> set T) people) + mset (filter (\<lambda>p. \<not> p \<in> set T) people) = mset people"
    by (simp only: mset_filter multiset_partition [symmetric])
  then show ?thesis by (simp only: subseq_filter_mem [OF assms])
qed

lemma generatePartitions_member:
  assumes "0 < s" and "\<forall>x \<in> set rest. 0 < x"
    and "ts \<in> set (fst (generatePartitions people (s # rest) lastMinId))"
  obtains T ts' where "ts = T # ts'" and "T \<in> set (combinations people s)"
    and "\<not> team_blocked lastMinId T"
    and "ts' \<in> set (fst (generatePartitions (filter (\<lambda>p. p \<notin> set T) people) rest
                                 (next_min s rest T)))"
  using assms(3) unfolding generatePartitions_Cons [OF assms(1,2)]
  by (auto split: if_splits)

lemma generatePartitions_partition:
  assumes "distinct people" and "\<forall>s \<in> set teamSizes. 0 < s"
    and "ts \<in> set (fst (generatePartitions people teamSizes lastMinId))"
  shows "map length ts = teamSizes \<and> mset (concat ts) \<subseteq># mset people \<and> distinct (concat ts)"
  using assms
proof (induction teamSizes arbitrary: people lastMinId ts)
  case Nil
  then show ?case by simp
next
  case (Cons s rest)
  from Cons.prems have pos: "0 < s" "\<forall>x \<in> set rest. 0 < x" by simp_all
  from generatePartitions_member [OF pos Cons.prems(3)] obtain T ts' where
    ts: "ts = T # ts'" and T: "T \<in> set (combinations people s)"
    and ts': "ts' \<in> set (fst (generatePartitions (filter (\<lambda>p. p \<notin> set T) people) rest
                                 (next_min s rest T)))"
    by blast
  let ?rem = "filter (\<lambda>p. p \<notin> set T) people"
  have sub: "subseq T people" and len: "length T = s"
    using T by (simp_all add: combinations_subseq combinations_length)
  have "distinct ?rem" using Cons.prems(1) by simp
  from Cons.IH [OF this pos(2) ts']
  have IH: "map length ts' = rest" "mset (concat ts') \<subseteq># mset ?rem" "distinct (concat ts')"
    by simp_all
  have "mset (concat ts) = mset T + mset (concat ts')" by (simp add: ts)
  also have "\<dots> \<subseteq># mset T + mset ?rem" using IH(2) by simp
  also have "\<dots> = mset people" by (rule mset_split_team [OF sub Cons.prems(1)])
  finally have m: "mset (concat ts) \<subseteq># mset people" .
  have "set (concat ts') \<subseteq> set ?rem" using set_mset_mono [OF IH(2)] by simp
  then have "set T \<inter> set (concat ts') = {}" by auto
  with subseq_distinct' [OF sub Cons.prems(1)] IH(3) have "distinct (concat ts)"
    by (simp add: ts)
  with m len IH(1) show ?case by (simp add: ts)
qed

lemma generatePartitions_cover:
  assumes "distinct people" and "\<forall>s \<in> set teamSizes. 0 < s"
    and "sum_list teamSizes = length people"
    and "ts \<in> set (fst (generatePartitions people teamSizes lastMinId))"
  shows "map length ts = teamSizes \<and> mset (concat ts) = mset people \<and> distinct (concat ts)"
proof -
  from generatePartitions_partition [OF assms(1,2,4)]
  have a: "map length ts = teamSizes" and b: "mset (concat ts) \<subseteq># mset people"
    and c: "distinct (concat ts)" by simp_all
  have "size (mset (concat ts)) = sum_list (map length ts)" by (simp add: length_concat)
  with a assms(3) have "size (mset (concat ts)) = size (mset people)" by simp
  with b have "mset (concat ts) = mset people"
    by (metis mset_subset_size subset_mset.le_neq_trans less_irrefl)
  with a c show ?thesis by simp
qed

section \<open>Properties of the optimization driver\<close>

lemma foldl_plus_sum_list: "foldl (\<lambda>sum size. sum + size) (0::nat) xs = sum_list xs"
  by (simp add: foldl_conv_fold fold_plus_sum_list_rev add.commute)

lemma optimizeTeams_run_invalid:
  "sum_list teamSizes \<noteq> length people \<Longrightarrow>
   optimizeTeams_run t0 t1 people teamSizes m arg = (0, Inl InvalidInput)"
  by (simp add: optimizeTeams_run_def foldl_plus_sum_list Let_def)

lemma gen_seq_throws:
  "(\<And>g. g \<in> set gs \<Longrightarrow> snd g = None \<or> snd g = Some TypeError) \<Longrightarrow>
   snd (gen_seq gs) = None \<or> snd (gen_seq gs) = Some TypeError"
proof (induction gs rule: gen_seq.induct)
  case 1
  then show ?case by simp
next
  case (2 ys e gs)
  from "2.prems" [of "(ys, Some e)"] show ?case by simp
next
  case (3 ys gs)
  then show ?case by (simp add: case_prod_beta)
qed

lemma generatePartitions_throws:
  "snd (generatePartitions people teamSizes lastMinId) = None
   \<or> snd (generatePartitions people teamSizes lastMinId) = Some TypeError"
proof (induction teamSizes arbitrary: people lastMinId)
  case Nil
  then show ?case by simp
next
  case (Cons s rest)
  show ?case
    unfolding generatePartitions_Cons_gen
  proof (rule gen_seq_throws)
    fix g
    assume "g \<in> set (map (\<lambda>T.
        if T = [] then ([], Some TypeError)
        else if team_blocked lastMinId T then ([], None)
        else (map ((#) T) (fst (generatePartitions (filter (\<lambda>p. p \<notin> set T) people) rest
                                  (next_min s rest T))),
              snd (generatePartitions (filter (\<lambda>p. p \<notin> set T) people) rest
                                  (next_min s rest T))))
       (combinations people s))"
    then have "snd g = Some TypeError \<or> snd g = None
        \<or> (\<exists>T. snd g = snd (generatePartitions (filter (\<lambda>p. p \<notin> set T) people) rest
                                  (next_min s rest T)))"
      by (auto split: if_splits)
    with Cons.IH show "snd g = None \<or> snd g = Some TypeError" by metis
  qed
qed

lemma optimizeTeams_run_valid_sum:
  assumes "sum_list teamSizes = length people"
  shows "snd (optimizeTeams_run t0 t1 people teamSizes m arg) \<noteq> Inl InvalidInput"
proof -
  obtain ps r where g: "generatePartitions people teamSizes None = (ps, r)"
    by (cases "generatePartitions people teamSizes None")
  with generatePartitions_throws [of people teamSizes None]
  have "r = None \<or> r = Some TypeError" by simp
  with g assms show ?thesis
    by (auto simp: optimizeTeams_run_def foldl_plus_sum_list Let_def)
qed

lemma gen_seq_no_yield:
  "(\<And>g. g \<in> set gs \<Longrightarrow> fst g = []) \<Longrightarrow> fst (gen_seq gs) = []"
proof (induction gs rule: gen_seq.induct)
  case 1
  then show ?case by simp
next
  case (2 ys e gs)
  from "2.prems" [of "(ys, Some e)"] show ?case by simp
next
  case (3 ys gs)
  from "3.prems" [of "(ys, None)"] have "ys = []" by simp
  moreover have "fst (gen_seq gs) = []" using 3 by simp
  ultimately show ?case by (simp add: case_prod_beta)
qed

lemma generatePartitions_zero_size:
  "0 \<in> set teamSizes \<Longrightarrow> fst (generatePartitions people teamSizes lastMinId) = []"
proof (induction teamSizes arbitrary: people lastMinId)
  case Nil
  then show ?case by simp
next
  case (Cons s rest)
  show ?case
  proof (cases "s = 0")
    case True
    then show ?thesis by (simp add: generatePartitions_Cons_gen)
  next
    case False
    with Cons.prems have "0 \<in> set rest" by simp
    then have rest: "fst (generatePartitions ppl rest l) = []" for ppl l
      by (rule Cons.IH)
    show ?thesis
      unfolding generatePartitions_Cons_gen
      by (rule gen_seq_no_yield) (auto simp: rest)
  qed
qed

lemma generatePartitions_throw_no_yield:
  assumes "snd (generatePartitions people teamSizes lastMinId) = Some e"
  shows "fst (generatePartitions people teamSizes lastMinId) = []"
proof -
  have "\<not> (\<forall>s \<in> set teamSizes. 0 < s)"
  proof
    assume "\<forall>s \<in> set teamSizes. 0 < s"
    from generatePartitions_no_throw [OF this, of people lastMinId] assms show False by simp
  qed
  then obtain s where "s \<in> set teamSizes" and "\<not> 0 < s" by blast
  then have "0 \<in> set teamSizes" by simp
  then show ?thesis by (rule generatePartitions_zero_size)
qed

lemma optimizeTeams_run_error:
  assumes "snd (optimizeTeams_run t0 t1 people teamSizes m arg) = Inl e"
  shows "optimizeTeams_run t0 t1 people teamSizes m arg = (0, Inl e)"
proof (cases "sum_list teamSizes = length people")
  case False
  from optimizeTeams_run_invalid [OF this] assms show ?thesis by simp
next
  case True
  obtain ps r where g: "generatePartitions people teamSizes None = (ps, r)"
    by (cases "generatePartitions people teamSizes None")
  show ?thesis
  proof (cases r)
    case None
    with g True assms show ?thesis
      by (simp add: optimizeTeams_run_def foldl_plus_sum_list Let_def)
  next
    case (Some e')
    with g generatePartitions_throw_no_yield [of people teamSizes None e'] have "ps = []" by simp
    with g True Some assms show ?thesis
      by (simp add: optimizeTeams_run_def foldl_plus_sum_list Let_def search_init_def)
  qed
qed

text \<open>
  Claim C3, as amended. \<open>optimizeTeams\<close> raises \<open>InvalidInput\<close> if and only if the team
  sizes do not sum to the number of people; an empty size sequence with people present is
  such a case. Whenever the call raises, the counter \<open>combinationsChecked\<close> is still 0: no
  partition has been evaluated, and no result is returned.
\<close>

theorem optimizeTeams_InvalidInput:
  "(optimizeTeams t0 t1 people teamSizes m arg = Inl InvalidInput
      \<longleftrightarrow> sum_list teamSizes \<noteq> length people)
   \<and> (teamSizes = [] \<and> people \<noteq> []
      \<longrightarrow> optimizeTeams t0 t1 people teamSizes m arg = Inl InvalidInput)
   \<and> (\<forall>e. optimizeTeams t0 t1 people teamSizes m arg = Inl e
      \<longrightarrow> optimizeTeams_run t0 t1 people teamSizes m arg = (0, Inl e))"
proof -
  have a: "optimizeTeams t0 t1 people teamSizes m arg = Inl InvalidInput
      \<longleftrightarrow> sum_list teamSizes \<noteq> length people"
  proof (cases "sum_list teamSizes = length people")
    case True
    from optimizeTeams_run_valid_sum [OF this] True show ?thesis
      by (auto simp: optimizeTeams_def)
  next
    case False
    from optimizeTeams_run_invalid [OF this] False show ?thesis
      by (auto simp: optimizeTeams_def)
  qed
  have b: "teamSizes = [] \<and> people \<noteq> []
      \<longrightarrow> optimizeTeams t0 t1 people teamSizes m arg = Inl InvalidInput"
    unfolding a by auto
  have c: "\<forall>e. optimizeTeams t0 t1 people teamSizes m arg = Inl e
      \<longrightarrow> optimizeTeams_run t0 t1 people teamSizes m arg = (0, Inl e)"
    unfolding optimizeTeams_def using optimizeTeams_run_error by blast
  from a b c show ?thesis by blast
qed

theorem optimizeTeams_InvalidInput_witness:
  "optimizeTeams 0 1 [\<lparr>person_id = ''1'', person_name = ''Alice''\<rparr>] [2] (\<lambda>_. None) None
     = Inl InvalidInput
   \<and> optimizeTeams_run 0 1 [\<lparr>person_id = ''1'', person_name = ''Alice''\<rparr>] [2] (\<lambda>_. None) None
     = (0, Inl InvalidInput)
   \<and> optimizeTeams 0 1 [\<lparr>person_id = ''1'', person_name = ''Alice''\<rparr>] [] (\<lambda>_. None) None
     = Inl InvalidInput"
  using optimizeTeams_InvalidInput [of 0 1 "[\<lparr>person_id = ''1'', person_name = ''Alice''\<rparr>]" "[2]"
      "\<lambda>_. None" None]
    optimizeTeams_InvalidInput [of 0 1 "[\<lparr>person_id = ''1'', person_name = ''Alice''\<rparr>]" "[]"
      "\<lambda>_. None" None]
  by simp

text \<open>
  The claim as stated fails on a zero team size whose sequence sums to the number of people:
  the validation lets it pass, and the call ends with the \<open>TypeError\<close> of the generator.
\<close>

theorem optimizeTeams_zero_size_counterexample:
  "optimizeTeams 0 1
     [\<lparr>person_id = ''1'', person_name = ''Alice''\<rparr>, \<lparr>person_id = ''2'', person_name = ''Bob''\<rparr>]
     [0, 2] (\<lambda>_. None) None = Inl TypeError
   \<and> \<not> 0 < [0, 2 :: nat] ! 0"
  by (simp add: optimizeTeams_def optimizeTeams_run_def generatePartitions_Cons_gen)

text \<open>
  Claim C9. Two calls with the same people, team sizes, conflict matrix and \<open>maxResults\<close>
  end alike, whatever the clock reads: with the same error, or with the same
  \<open>bestAssignments\<close>, in the same order, and the same \<open>totalCombinationsChecked\<close>.
\<close>

theorem optimizeTeams_deterministic:
  "map_sum (\<lambda>e. e) (\<lambda>r. (bestAssignments r, totalCombinationsChecked r))
      (optimizeTeams t0 t1 people teamSizes m arg)
   = map_sum (\<lambda>e. e) (\<lambda>r. (bestAssignments r, totalCombinationsChecked r))
      (optimizeTeams t0' t1' people teamSizes m arg)"
  by (simp add: optimizeTeams_def optimizeTeams_run_def Let_def
      split: prod.splits option.splits)

text \<open>
  Claim C10. With no people and no team sizes, any conflict matrix and a positive
  \<open>maxResults\<close> (given or default), \<open>optimizeTeams\<close> returns one assignment, with no teams
  and score 0, and \<open>totalCombinationsChecked = 1\<close>.
\<close>

theorem optimizeTeams_empty:
  "0 < (case arg of None \<Rightarrow> 10 | Some n \<Rightarrow> n) \<Longrightarrow>
   optimizeTeams t0 t1 [] [] m arg =
     Inr \<lparr>bestAssignments = [\<lparr>teams = [], conflictScore = 0\<rparr>],
          totalCombinationsChecked = 1, executionTimeMs = t1 - t0\<rparr>"
  by (simp add: optimizeTeams_def optimizeTeams_run_def search_step_init assignment_of_def
      calculateConflictScore_def slice0_def split: option.splits)

theorem optimizeTeams_empty_witness:
  "(0::int) < 3 \<and> optimizeTeams 5 9 [] [] (\<lambda>_. None) (Some 3) =
     Inr \<lparr>bestAssignments = [\<lparr>teams = [], conflictScore = 0\<rparr>],
          totalCombinationsChecked = 1, executionTimeMs = 4\<rparr>"
  using optimizeTeams_empty [of "Some 3" 5 9 "\<lambda>_. None"] by simp

section \<open>Properties of the conflict scorer\<close>

text \<open>
  The running total after the scorer has added some entries is a number exactly when none
  of them was not a number, and then it is their sum.
\<close>

lemma entry_other_nonneg: "0 \<le> entry_other m a b"
  by (simp add: entry_other_def split: jsval.split)

lemma add_conflict_rep:
  "0 \<le> k \<Longrightarrow>
   add_conflict (if k = (0::int) then Num t else Str) (conflict_entry m a b) =
     (if k + entry_other m a b = 0 then Num (t + entry_number m a b) else Str)"
  by (cases "conflict_entry m a b")
    (auto simp: add_conflict_def entry_other_def entry_number_def)

lemma foldl_add_conflict:
  "0 \<le> k \<Longrightarrow>
   foldl (\<lambda>tot x. add_conflict tot (conflict_entry m (f x) (g x)))
      (if k = (0::int) then Num t else Str) xs =
     (if k + (\<Sum>x \<leftarrow> xs. entry_other m (f x) (g x)) = 0
      then Num (t + (\<Sum>x \<leftarrow> xs. entry_number m (f x) (g x))) else Str)"
proof (induction xs arbitrary: k t)
  case Nil
  then show ?case by simp
next
  case (Cons x xs)
  from Cons.prems entry_other_nonneg [of m "f x" "g x"]
  have k: "0 \<le> k + entry_other m (f x) (g x)" by simp
  show ?case
    by (simp only: foldl_Cons add_conflict_rep [OF Cons.prems] Cons.IH [OF k]
        list.map sum_list.Cons add.assoc)
qed

lemma sum_entry_other_nonneg: "0 \<le> (\<Sum>x \<leftarrow> xs. entry_other m (f x) (g x))"
  by (rule sum_list_nonneg) (auto simp: entry_other_nonneg)

lemma foldl_add_conflict_nested:
  "0 \<le> k \<Longrightarrow>
   foldl (\<lambda>tot x. foldl (\<lambda>tot y. add_conflict tot (conflict_entry m (f x) (g y))) tot (h x))
      (if k = (0::int) then Num t else Str) xs =
     (if k + (\<Sum>x \<leftarrow> xs. \<Sum>y \<leftarrow> h x. entry_other m (f x) (g y)) = 0
      then Num (t + (\<Sum>x \<leftarrow> xs. \<Sum>y \<leftarrow> h x. entry_number m (f x) (g y))) else Str)"
proof (induction xs arbitrary: k t)
  case Nil
  then show ?case by simp
next
  case (Cons x xs)
  from Cons.prems sum_entry_other_nonneg [of m "\<lambda>_. f x" g "h x"]
  have k: "0 \<le> k + (\<Sum>y \<leftarrow> h x. entry_other m (f x) (g y))" by simp
  show ?case
    by (simp only: foldl_Cons foldl_add_conflict [OF Cons.prems] Cons.IH [OF k]
        list.map sum_list.Cons add.assoc)
qed

lemma pair_sum_other_nonneg: "0 \<le> pair_sum (entry_other m) tm"
  unfolding pair_sum_def
  by (rule sum_list_nonneg) (auto simp: sum_entry_other_nonneg)

lemma foldl_add_conflict_teams:
  "0 \<le> k \<Longrightarrow>
   foldl (\<lambda>totalScore tm.
        foldl (\<lambda>totalScore i.
           foldl (\<lambda>totalScore j.
              add_conflict totalScore
                (conflict_entry m (person_id (tm ! i)) (person_id (tm ! j))))
             totalScore [i + 1 ..< length tm])
          totalScore [0 ..< length tm])
      (if k = (0::int) then Num t else Str) ts =
     (if k + (\<Sum>tm \<leftarrow> ts. pair_sum (entry_other m) tm) = 0
      then Num (t + (\<Sum>tm \<leftarrow> ts. pair_sum (entry_number m) tm)) else Str)"
proof (induction ts arbitrary: k t)
  case Nil
  then show ?case by simp
next
  case (Cons tm ts)
  from Cons.prems pair_sum_other_nonneg [of m tm]
  have k: "0 \<le> k + pair_sum (entry_other m) tm" by simp
  have inner: "foldl (\<lambda>totalScore i.
           foldl (\<lambda>totalScore j.
              add_conflict totalScore
                (conflict_entry m (person_id (tm ! i)) (person_id (tm ! j))))
             totalScore [i + 1 ..< length tm])
          (if k = 0 then Num t else Str) [0 ..< length tm] =
      (if k + pair_sum (entry_other m) tm = 0
       then Num (t + pair_sum (entry_number m) tm) else Str)"
    unfolding pair_sum_def
    by (rule foldl_add_conflict_nested [OF Cons.prems,
          of m "\<lambda>i. person_id (tm ! i)" "\<lambda>j. person_id (tm ! j)"])
  show ?case
    by (simp only: foldl_Cons inner Cons.IH [OF k] list.map sum_list.Cons add.assoc)
qed

lemma calculateConflictScore_pairs:
  "calculateConflictScore ts m =
     (if (\<Sum>tm \<leftarrow> ts. pair_sum (entry_other m) tm) = 0
      then Num (\<Sum>tm \<leftarrow> ts. pair_sum (entry_number m) tm) else Str)"
  using foldl_add_conflict_teams [of 0 m 0 ts]
  by (simp add: calculateConflictScore_def)

text \<open>Where every entry read is a number, the score is the sum of the entries.\<close>

lemma sum_list_map_zero:
  "(\<And>x. x \<in> set xs \<Longrightarrow> f x = (0::int)) \<Longrightarrow> sum_list (map f xs) = 0"
  by (induction xs) simp_all

lemma pair_sum_zero:
  assumes "\<forall>p \<in> set tm. \<forall>q \<in> set tm. c (person_id p) (person_id q) = 0"
  shows "pair_sum c tm = 0"
  unfolding pair_sum_def
proof (rule sum_list_map_zero)
  fix i assume "i \<in> set [0 ..< length tm]"
  then have i: "i < length tm" by simp
  show "(\<Sum>j \<leftarrow> [i + 1 ..< length tm]. c (person_id (tm ! i)) (person_id (tm ! j))) = 0"
  proof (rule sum_list_map_zero)
    fix j assume "j \<in> set [i + 1 ..< length tm]"
    then have "j < length tm" by simp
    with i assms show "c (person_id (tm ! i)) (person_id (tm ! j)) = 0" by simp
  qed
qed

lemma calculateConflictScore_numbers:
  assumes "\<forall>tm \<in> set ts. \<forall>p \<in> set tm. \<forall>q \<in> set tm.
      conflict_entry m (person_id p) (person_id q) \<noteq> NonNumber"
  shows "calculateConflictScore ts m = Num (\<Sum>tm \<leftarrow> ts. pair_sum (entry_number m) tm)"
proof -
  have "pair_sum (entry_other m) tm = 0" if "tm \<in> set ts" for tm
    by (rule pair_sum_zero) (use assms that in \<open>auto simp: entry_other_def split: jsval.split\<close>)
  then have "(\<Sum>tm \<leftarrow> ts. pair_sum (entry_other m) tm) = 0"
    by (rule sum_list_map_zero)
  then show ?thesis by (simp add: calculateConflictScore_pairs)
qed


text \<open>
  A matrix read from JSON gives numbers between ids that are not keys of
  \<open>Object.prototype\<close>: the entry recorded, and 0 where none is.
\<close>

lemma json_matrix_entry:
  assumes "a \<notin> set object_prototype_keys" and "b \<notin> set object_prototype_keys"
  shows "conflict_entry (json_matrix builtin own) a b = Number (recorded_conflict own a b)"
  using assms
  by (simp add: conflict_entry_def json_matrix_def recorded_conflict_def split: option.split)

lemma json_matrix_no_rows:
  "a \<notin> set object_prototype_keys \<Longrightarrow> json_matrix builtin (\<lambda>_. None) a = None"
  by (simp add: json_matrix_def)

lemma json_matrix_numeric:
  assumes "\<forall>p \<in> set people. person_id p \<notin> set object_prototype_keys"
  shows "numeric_on (json_matrix builtin own) people"
  using assms by (simp add: numeric_on_def json_matrix_entry)

text \<open>
  Where the matrix has no own row, the row read may be an inherited function, and its
  \<open>length\<close> is a number: with \<open>Object.length = 1\<close> and the empty matrix, the team of the ids
  \<open>constructor\<close> and \<open>length\<close> scores 1, and in the other order 0.
\<close>

lemma calculateConflictScore_inherited_length:
  assumes "builtin ''constructor'' ''length'' = Some (Number 1)"
  shows "calculateConflictScore
      [[\<lparr>person_id = ''constructor'', person_name = ''Alice''\<rparr>,
        \<lparr>person_id = ''length'', person_name = ''Bob''\<rparr>]]
      (json_matrix builtin (\<lambda>_. None)) = Num 1"
    and "calculateConflictScore
      [[\<lparr>person_id = ''length'', person_name = ''Bob''\<rparr>,
        \<lparr>person_id = ''constructor'', person_name = ''Alice''\<rparr>]]
      (json_matrix builtin (\<lambda>_. None)) = Num 0"
  using assms
  by (simp_all add: calculateConflictScore_def conflict_entry_def json_matrix_def
      object_prototype_keys_def add_conflict_def upt_rec)

text \<open>
  The score is the sum of the scores of the teams, so the order of the teams does not
  matter; the order of the members of a team does not matter when the matrix reads the
  same in both directions.
\<close>

lemma calculateConflictScore_teams_permuted:
  assumes "mset ts = mset ts'"
  shows "calculateConflictScore ts m = calculateConflictScore ts' m"
proof -
  have "(\<Sum>tm \<leftarrow> ts. pair_sum c tm) = (\<Sum>tm \<leftarrow> ts'. pair_sum c tm)" for c :: "string \<Rightarrow> string \<Rightarrow> int"
  proof -
    have "mset (map (pair_sum c) ts) = mset (map (pair_sum c) ts')"
      using assms by (simp only: mset_map)
    then have "sum_mset (mset (map (pair_sum c) ts)) = sum_mset (mset (map (pair_sum c) ts'))"
      by simp
    then show ?thesis by (simp only: sum_mset_sum_list)
  qed
  then show ?thesis by (simp only: calculateConflictScore_pairs)
qed

lemma pair_sum_Cons:
  "pair_sum c (p # tm) = (\<Sum>q \<leftarrow> tm. c (person_id p) (person_id q)) + pair_sum c tm"
proof -
  have shift: "[0 ..< Suc n] = 0 # map Suc [0 ..< n]" for n
    by (simp add: upt_conv_Cons map_Suc_upt del: upt_Suc)
  have first: "(\<Sum>j \<leftarrow> [Suc 0 ..< Suc (length tm)]. c (person_id p) (person_id ((p # tm) ! j)))
      = (\<Sum>q \<leftarrow> tm. c (person_id p) (person_id q))"
  proof -
    have "[Suc 0 ..< Suc (length tm)] = map Suc [0 ..< length tm]"
      by (simp add: map_Suc_upt)
    then have "(\<Sum>j \<leftarrow> [Suc 0 ..< Suc (length tm)]. c (person_id p) (person_id ((p # tm) ! j)))
      = (\<Sum>j \<leftarrow> [0 ..< length tm]. c (person_id p) (person_id (tm ! j)))"
      by (simp add: comp_def)
    also have "\<dots> = (\<Sum>q \<leftarrow> map ((!) tm) [0 ..< length tm]. c (person_id p) (person_id q))"
      by (simp add: comp_def)
    finally show ?thesis by (simp only: map_nth)
  qed
  have rest: "(\<Sum>i \<leftarrow> map Suc [0 ..< length tm]. \<Sum>j \<leftarrow> [i + 1 ..< Suc (length tm)].
        c (person_id ((p # tm) ! i)) (person_id ((p # tm) ! j)))
      = pair_sum c tm"
  proof -
    have "(\<Sum>j \<leftarrow> [Suc i + 1 ..< Suc (length tm)].
        c (person_id ((p # tm) ! Suc i)) (person_id ((p # tm) ! j)))
      = (\<Sum>j \<leftarrow> [i + 1 ..< length tm]. c (person_id (tm ! i)) (person_id (tm ! j)))" for i
    proof -
      have "[Suc i + 1 ..< Suc (length tm)] = map Suc [i + 1 ..< length tm]"
        by (simp add: map_Suc_upt)
      then show ?thesis by (simp add: comp_def)
    qed
    then show ?thesis by (simp add: pair_sum_def comp_def)
  qed
  have "pair_sum c (p # tm)
      = (\<Sum>i \<leftarrow> 0 # map Suc [0 ..< length tm]. \<Sum>j \<leftarrow> [i + 1 ..< Suc (length tm)].
        c (person_id ((p # tm) ! i)) (person_id ((p # tm) ! j)))"
    unfolding pair_sum_def by (simp only: length_Cons shift)
  also have "\<dots> = (\<Sum>j \<leftarrow> [Suc 0 ..< Suc (length tm)].
        c (person_id p) (person_id ((p # tm) ! j)))
      + (\<Sum>i \<leftarrow> map Suc [0 ..< length tm]. \<Sum>j \<leftarrow> [i + 1 ..< Suc (length tm)].
        c (person_id ((p # tm) ! i)) (person_id ((p # tm) ! j)))"
    by simp
  finally show ?thesis by (simp only: first rest)
qed

lemma pair_sum_double:
  assumes "\<And>a b. c a b = c b a"
  shows "2 * pair_sum c tm + (\<Sum>p \<leftarrow> tm. c (person_id p) (person_id p))
    = (\<Sum>p \<leftarrow> tm. \<Sum>q \<leftarrow> tm. c (person_id p) (person_id q))"
proof (induction tm)
  case Nil
  then show ?case by (simp add: pair_sum_def)
next
  case (Cons x tm)
  have "(\<Sum>p \<leftarrow> tm. c (person_id p) (person_id x) + (\<Sum>q \<leftarrow> tm. c (person_id p) (person_id q)))
      = (\<Sum>p \<leftarrow> tm. c (person_id x) (person_id p))
        + (\<Sum>p \<leftarrow> tm. \<Sum>q \<leftarrow> tm. c (person_id p) (person_id q))"
  proof -
    have "(\<Sum>p \<leftarrow> tm. c (person_id p) (person_id x)) = (\<Sum>p \<leftarrow> tm. c (person_id x) (person_id p))"
      by (rule arg_cong [where f = sum_list], rule map_cong [OF refl]) (rule assms)
    then show ?thesis by (simp only: sum_list_addf)
  qed
  then have "(\<Sum>p \<leftarrow> x # tm. \<Sum>q \<leftarrow> x # tm. c (person_id p) (person_id q))
      = c (person_id x) (person_id x)
        + 2 * (\<Sum>p \<leftarrow> tm. c (person_id x) (person_id p))
        + (\<Sum>p \<leftarrow> tm. \<Sum>q \<leftarrow> tm. c (person_id p) (person_id q))"
    by simp
  also have "\<dots> = c (person_id x) (person_id x)
        + 2 * (\<Sum>p \<leftarrow> tm. c (person_id x) (person_id p))
        + (2 * pair_sum c tm + (\<Sum>p \<leftarrow> tm. c (person_id p) (person_id p)))"
    by (simp only: Cons.IH)
  finally show ?case
    by (simp add: pair_sum_Cons)
qed

lemma pair_sum_members_permuted:
  assumes "\<And>a b. c a b = c b a" and "mset tm = mset tm'"
  shows "pair_sum c tm = pair_sum c tm'"
proof -
  let ?c = "\<lambda>p q. c (person_id p) (person_id q)"
  have row: "(\<Sum>q \<leftarrow> tm. ?c p q) = (\<Sum>q \<leftarrow> tm'. ?c p q)" for p
  proof -
    have "sum_mset (mset (map (?c p) tm)) = sum_mset (mset (map (?c p) tm'))"
      using assms(2) by (simp only: mset_map)
    then show ?thesis by (simp only: sum_mset_sum_list)
  qed
  have "(\<Sum>p \<leftarrow> tm. \<Sum>q \<leftarrow> tm. ?c p q) = (\<Sum>p \<leftarrow> tm. \<Sum>q \<leftarrow> tm'. ?c p q)"
    by (simp only: row)
  also have "\<dots> = (\<Sum>p \<leftarrow> tm'. \<Sum>q \<leftarrow> tm'. ?c p q)"
  proof -
    have "sum_mset (mset (map (\<lambda>p. \<Sum>q \<leftarrow> tm'. ?c p q) tm))
        = sum_mset (mset (map (\<lambda>p. \<Sum>q \<leftarrow> tm'. ?c p q) tm'))"
      using assms(2) by (simp only: mset_map)
    then show ?thesis by (simp only: sum_mset_sum_list)
  qed
  finally have all: "(\<Sum>p \<leftarrow> tm. \<Sum>q \<leftarrow> tm. ?c p q) = (\<Sum>p \<leftarrow> tm'. \<Sum>q \<leftarrow> tm'. ?c p q)" .
  have diag: "(\<Sum>p \<leftarrow> tm. ?c p p) = (\<Sum>p \<leftarrow> tm'. ?c p p)"
  proof -
    have "sum_mset (mset (map (\<lambda>p. ?c p p) tm)) = sum_mset (mset (map (\<lambda>p. ?c p p) tm'))"
      using assms(2) by (simp only: mset_map)
    then show ?thesis by (simp only: sum_mset_sum_list)
  qed
  from pair_sum_double [of c tm, OF assms(1)] pair_sum_double [of c tm', OF assms(1)] all diag
  show ?thesis by simp
qed

lemma calculateConflictScore_members_permuted:
  assumes "\<And>a b. conflict_entry m a b = conflict_entry m b a"
    and "length ts = length ts'" and "\<forall>i < length ts. mset (ts ! i) = mset (ts' ! i)"
  shows "calculateConflictScore ts m = calculateConflictScore ts' m"
proof -
  have sym: "entry_number m a b = entry_number m b a" "entry_other m a b = entry_other m b a"
    for a b
    by (simp_all add: entry_number_def entry_other_def assms(1) [of a b])
  have "map (pair_sum c) ts = map (pair_sum c) ts'" if "\<And>a b. c a b = c b a"
    for c :: "string \<Rightarrow> string \<Rightarrow> int"
  proof -
    have "pair_sum c (ts ! i) = pair_sum c (ts' ! i)" if "i < length ts" for i
      by (rule pair_sum_members_permuted [of c, OF \<open>\<And>a b. c a b = c b a\<close>]) (use assms(3) that in blast)
    then show ?thesis using assms(2) by (intro nth_equalityI) simp_all
  qed
  from this [of "entry_number m"] this [of "entry_other m"] sym
  show ?thesis by (simp only: calculateConflictScore_pairs)
qed

text \<open>
  Claim C1 asks for a symmetric accessor. \<open>calculateConflictScore\<close> reads one entry for a
  pair, row \<open>team[i].id\<close>, column \<open>team[j].id\<close> with \<open>i < j\<close>: with the count of the pair
  stored in direction 1 to 2 the team \<open>[1, 2]\<close> scores 5, with the same count stored in
  direction 2 to 1 it scores 0.
\<close>

theorem calculateConflictScore_one_direction:
  "calculateConflictScore
     [[\<lparr>person_id = ''1'', person_name = ''Alice''\<rparr>, \<lparr>person_id = ''2'', person_name = ''Bob''\<rparr>]]
     (json_matrix builtin [''1'' \<mapsto> [''2'' \<mapsto> 5]]) = Num 5
   \<and> calculateConflictScore
     [[\<lparr>person_id = ''1'', person_name = ''Alice''\<rparr>, \<lparr>person_id = ''2'', person_name = ''Bob''\<rparr>]]
     (json_matrix builtin [''2'' \<mapsto> [''1'' \<mapsto> 5]]) = Num 0"
  by (simp add: calculateConflictScore_def conflict_entry_def json_matrix_def
      object_prototype_keys_def add_conflict_def upt_rec)

text \<open>
  Claim C4 asks for a score that does not depend on the order of the members of a team.
  With the count of a pair stored in one direction, the team \<open>[1, 2]\<close> scores 5 and the
  team \<open>[2, 1]\<close> scores 0, and \<open>optimizeTeams\<close> on the people in the order 2, 1 reports
  the score 0.
\<close>

theorem calculateConflictScore_member_order:
  "calculateConflictScore
     [[\<lparr>person_id = ''1'', person_name = ''Alice''\<rparr>, \<lparr>person_id = ''2'', person_name = ''Bob''\<rparr>]]
     (json_matrix builtin [''1'' \<mapsto> [''2'' \<mapsto> 5]]) = Num 5
   \<and> calculateConflictScore
     [[\<lparr>person_id = ''2'', person_name = ''Bob''\<rparr>, \<lparr>person_id = ''1'', person_name = ''Alice''\<rparr>]]
     (json_matrix builtin [''1'' \<mapsto> [''2'' \<mapsto> 5]]) = Num 0
   \<and> optimizeTeams 0 0
     [\<lparr>person_id = ''2'', person_name = ''Bob''\<rparr>, \<lparr>person_id = ''1'', person_name = ''Alice''\<rparr>]
     [2] (json_matrix builtin [''1'' \<mapsto> [''2'' \<mapsto> 5]]) None =
     Inr \<lparr>bestAssignments =
            [\<lparr>teams = [\<lparr>members = [\<lparr>person_id = ''2'', person_name = ''Bob''\<rparr>,
                                     \<lparr>person_id = ''1'', person_name = ''Alice''\<rparr>]\<rparr>],
              conflictScore = 0\<rparr>],
          totalCombinationsChecked = 1, executionTimeMs = 0\<rparr>"
proof -
  have sc: "calculateConflictScore
     [[\<lparr>person_id = ''2'', person_name = ''Bob''\<rparr>, \<lparr>person_id = ''1'', person_name = ''Alice''\<rparr>]]
     (json_matrix builtin [''1'' \<mapsto> [''2'' \<mapsto> 5]]) = Num 0"
    by (simp add: calculateConflictScore_def conflict_entry_def json_matrix_def
        object_prototype_keys_def add_conflict_def upt_rec)
  have "calculateConflictScore
     [[\<lparr>person_id = ''1'', person_name = ''Alice''\<rparr>, \<lparr>person_id = ''2'', person_name = ''Bob''\<rparr>]]
     (json_matrix builtin [''1'' \<mapsto> [''2'' \<mapsto> 5]]) = Num 5"
    by (simp add: calculateConflictScore_def conflict_entry_def json_matrix_def
        object_prototype_keys_def add_conflict_def upt_rec)
  moreover have "optimizeTeams 0 0
     [\<lparr>person_id = ''2'', person_name = ''Bob''\<rparr>, \<lparr>person_id = ''1'', person_name = ''Alice''\<rparr>]
     [2] (json_matrix builtin [''1'' \<mapsto> [''2'' \<mapsto> 5]]) None =
     Inr \<lparr>bestAssignments =
            [\<lparr>teams = [\<lparr>members = [\<lparr>person_id = ''2'', person_name = ''Bob''\<rparr>,
                                     \<lparr>person_id = ''1'', person_name = ''Alice''\<rparr>]\<rparr>],
              conflictScore = 0\<rparr>],
          totalCombinationsChecked = 1, executionTimeMs = 0\<rparr>"
    by (simp add: optimizeTeams_def optimizeTeams_run_def generatePartitions_Cons_gen
        team_blocked_def eval_nat_numeral upt_rec search_step_init [OF sc] assignment_of_def
        slice0_def)
  ultimately show ?thesis using sc by simp
qed

section \<open>The returned assignments\<close>

lemma valid_input_distinct: "valid_input people teamSizes \<Longrightarrow> distinct people"
  by (auto simp: valid_input_def distinct_map)

lemma optimizeTeams_run_result:
  assumes "valid_input people teamSizes"
  shows "optimizeTeams_run t0 t1 people teamSizes m arg =
    (length (fst (generatePartitions people teamSizes None)),
     Inr \<lparr>bestAssignments = take (nat (case arg of None \<Rightarrow> 10 | Some n \<Rightarrow> n))
            (map (\<lambda>p. assignment_of p
                    (Min (set (numeric_scores m (fst (generatePartitions people teamSizes None))))))
               (minimal_partitions m (fst (generatePartitions people teamSizes None)))),
          totalCombinationsChecked = length (fst (generatePartitions people teamSizes None)),
          executionTimeMs = t1 - t0\<rparr>)"
proof -
  from assms have pos: "\<forall>s \<in> set teamSizes. 0 < s" and sum: "sum_list teamSizes = length people"
    by (simp_all add: valid_input_def)
  have g: "generatePartitions people teamSizes None
      = (fst (generatePartitions people teamSizes None), None)"
    using generatePartitions_no_throw [OF pos, of people None]
    by (metis prod.collapse)
  have r: "optimizeTeams_run t0 t1 people teamSizes m arg =
      optimizeTeams_run t0 t1 people teamSizes m (Some (case arg of None \<Rightarrow> 10 | Some n \<Rightarrow> n))"
    by (cases arg) (simp_all add: optimizeTeams_run_def)
  show ?thesis
    unfolding r by (rule optimizeTeams_run_ok [OF sum g])
qed

lemma minimal_partitions_member:
  assumes "p \<in> set (minimal_partitions m ps)"
  shows "p \<in> set ps"
    and "calculateConflictScore p m = Num (Min (set (numeric_scores m ps)))"
    and "\<And>q s. q \<in> set ps \<Longrightarrow> calculateConflictScore q m = Num s
          \<Longrightarrow> Min (set (numeric_scores m ps)) \<le> s"
proof -
  from assms have ne: "numeric_scores m ps \<noteq> []"
    using minimal_partitions_none [of m ps] by auto
  from assms show "p \<in> set ps"
    and "calculateConflictScore p m = Num (Min (set (numeric_scores m ps)))"
    unfolding minimal_partitions_filter [OF ne] by simp_all
  show "Min (set (numeric_scores m ps)) \<le> s"
    if "q \<in> set ps" "calculateConflictScore q m = Num s" for q s
  proof -
    from that have "s \<in> set (numeric_scores m ps)" by (auto simp: numeric_scores_set)
    then show ?thesis by simp
  qed
qed

lemma members_assignment_of: "map members (teams (assignment_of p s)) = p"
  by (simp add: assignment_of_def comp_def)

text \<open>
  What a call with a valid input returns: the partitions of minimal score, with their
  scores, in the order of the generator and up to \<open>maxResults\<close> of them, and the number of
  partitions generated.
\<close>

lemma optimizeTeams_result:
  assumes "valid_input people teamSizes"
  shows "\<exists>r. optimizeTeams t0 t1 people teamSizes m arg = Inr r
    \<and> map (\<lambda>a. (map members (teams a), Num (conflictScore a))) (bestAssignments r) =
        take (nat (case arg of None \<Rightarrow> 10 | Some n \<Rightarrow> n))
          (map (\<lambda>p. (p, calculateConflictScore p m))
             (minimal_partitions m (fst (generatePartitions people teamSizes None))))
    \<and> totalCombinationsChecked r = length (fst (generatePartitions people teamSizes None))"
proof -
  define ps where "ps = fst (generatePartitions people teamSizes None)"
  define n where "n = nat (case arg of None \<Rightarrow> 10 | Some n \<Rightarrow> n)"
  define M where "M = Min (set (numeric_scores m ps))"
  define r where "r = \<lparr>bestAssignments = take n
            (map (\<lambda>p. assignment_of p M) (minimal_partitions m ps)),
          totalCombinationsChecked = length ps, executionTimeMs = t1 - t0\<rparr>"
  have run: "optimizeTeams t0 t1 people teamSizes m arg = Inr r"
    unfolding optimizeTeams_def optimizeTeams_run_result [OF assms]
    by (simp add: r_def ps_def M_def n_def)
  have "map (\<lambda>a. (map members (teams a), Num (conflictScore a)))
          (map (\<lambda>p. assignment_of p M) (minimal_partitions m ps))
      = map (\<lambda>p. (p, Num M)) (minimal_partitions m ps)"
    by (simp add: comp_def members_assignment_of) (simp add: assignment_of_def)
  also have "\<dots> = map (\<lambda>p. (p, calculateConflictScore p m)) (minimal_partitions m ps)"
    by (rule map_cong [OF refl]) (simp add: minimal_partitions_member(2) M_def)
  finally have eq: "map (\<lambda>a. (map members (teams a), Num (conflictScore a)))
          (map (\<lambda>p. assignment_of p M) (minimal_partitions m ps))
      = map (\<lambda>p. (p, calculateConflictScore p m)) (minimal_partitions m ps)" .
  have "map (\<lambda>a. (map members (teams a), Num (conflictScore a))) (bestAssignments r)
      = take n (map (\<lambda>a. (map members (teams a), Num (conflictScore a)))
          (map (\<lambda>p. assignment_of p M) (minimal_partitions m ps)))"
    unfolding r_def by (simp only: optimizationResult.simps take_map)
  then have "map (\<lambda>a. (map members (teams a), Num (conflictScore a))) (bestAssignments r)
      = take n (map (\<lambda>p. (p, calculateConflictScore p m)) (minimal_partitions m ps))"
    by (simp only: eq)
  moreover have "totalCombinationsChecked r = length ps" by (simp add: r_def)
  ultimately show ?thesis using run unfolding ps_def n_def by blast
qed

text \<open>Every returned assignment holds a generated partition of minimal score.\<close>

lemma bestAssignments_member:
  assumes "map (\<lambda>a. (map members (teams a), Num (conflictScore a))) bs =
        take n (map (\<lambda>p. (p, calculateConflictScore p m)) (minimal_partitions m ps))"
    and "a \<in> set bs"
  shows "map members (teams a) \<in> set (minimal_partitions m ps)"
    and "calculateConflictScore (map members (teams a)) m = Num (conflictScore a)"
proof -
  from assms(2) have "(map members (teams a), Num (conflictScore a))
      \<in> set (map (\<lambda>a. (map members (teams a), Num (conflictScore a))) bs)"
    by (rule imageI [of a "set bs" "\<lambda>a. (map members (teams a), Num (conflictScore a))",
          unfolded set_map [symmetric]])
  then have "(map members (teams a), Num (conflictScore a))
      \<in> set (map (\<lambda>p. (p, calculateConflictScore p m)) (minimal_partitions m ps))"
    unfolding assms(1) by (rule in_set_takeD)
  then show "map members (teams a) \<in> set (minimal_partitions m ps)"
    and "calculateConflictScore (map members (teams a)) m = Num (conflictScore a)"
    by auto
qed

subsection \<open>The generator yields the canonical partitions, each once\<close>

lemma subseq_filter_all:
  assumes "subseq t xs" and "\<forall>x \<in> set t. P x"
  shows "subseq t (filter P xs)"
proof -
  have "subseq (filter P t) (filter P xs)" using assms(1) by (rule subseq_filter)
  moreover have "filter P t = t" using assms(2) by (simp add: filter_id_conv)
  ultimately show ?thesis by simp
qed

lemma team_blocked_min:
  "T \<noteq> [] \<Longrightarrow> team_blocked lastMinId T
     = (case lastMinId of None \<Rightarrow> False | Some l \<Rightarrow> team_min_id T \<le> l)"
  by (simp add: team_blocked_def team_min_id_def minIdInTeam_hd split: option.split)

lemma next_min_min:
  "T \<noteq> [] \<Longrightarrow> next_min s rest T
     = (if (case rest of [] \<Rightarrow> False | s' # _ \<Rightarrow> s' = s) then Some (team_min_id T) else None)"
  by (simp add: next_min_def team_min_id_def minIdInTeam_hd)

lemma generatePartitions_sound:
  assumes "distinct people" and "\<forall>s \<in> set teamSizes. 0 < s"
    and "ts \<in> set (fst (generatePartitions people teamSizes lastMinId))"
  shows "(\<forall>t \<in> set ts. subseq t people) \<and> ascending_min_ids ts \<and> above_threshold lastMinId ts"
  using assms
proof (induction teamSizes arbitrary: people lastMinId ts)
  case Nil
  then have "ts = []" by (simp add: generatePartitions.simps(1))
  then show ?case by (simp add: above_threshold_def split: option.split)
next
  case (Cons s rest)
  from Cons.prems have pos: "0 < s" "\<forall>x \<in> set rest. 0 < x" by simp_all
  from generatePartitions_member [OF pos Cons.prems(3)] obtain T ts' where
    ts: "ts = T # ts'" and T: "T \<in> set (combinations people s)"
    and nb: "\<not> team_blocked lastMinId T"
    and ts': "ts' \<in> set (fst (generatePartitions (filter (\<lambda>p. p \<notin> set T) people) rest
                                 (next_min s rest T)))"
    by blast
  let ?rem = "filter (\<lambda>p. p \<notin> set T) people"
  have sub: "subseq T people" and len: "length T = s"
    using T by (simp_all add: combinations_subseq combinations_length)
  with pos have ne: "T \<noteq> []" by auto
  have d: "distinct ?rem" using Cons.prems(1) by simp
  from Cons.IH [OF d pos(2) ts']
  have IH: "\<forall>t \<in> set ts'. subseq t ?rem" "ascending_min_ids ts'"
    "above_threshold (next_min s rest T) ts'"
    by simp_all
  from generatePartitions_partition [OF d pos(2) ts'] have lens: "map length ts' = rest" by simp
  have "subseq t people" if "t \<in> set ts'" for t
  proof -
    from IH(1) that have "subseq t ?rem" by simp
    moreover have "subseq ?rem people" by simp
    ultimately show ?thesis by (rule subseq_order.trans)
  qed
  with sub have a: "\<forall>t \<in> set ts. subseq t people" by (simp add: ts)
  have b: "ascending_min_ids ts"
  proof (cases ts')
    case Nil
    then show ?thesis by (simp add: ts)
  next
    case (Cons t2 ts'')
    with lens have r: "rest = length t2 # map length ts''" by auto
    have "team_min_id T < team_min_id t2" if "length T = length t2"
      using IH(3) that len unfolding next_min_min [OF ne] r Cons
      by (simp add: above_threshold_def)
    with IH(2) show ?thesis by (simp add: ts Cons)
  qed
  have c: "above_threshold lastMinId ts"
    using nb unfolding team_blocked_min [OF ne]
    by (simp add: above_threshold_def ts split: option.splits)
  from a b c show ?case by simp
qed

lemma generatePartitions_complete:
  assumes "distinct people" and "\<forall>s \<in> set teamSizes. 0 < s"
    and "map length ts = teamSizes" and "\<forall>t \<in> set ts. subseq t people"
    and "distinct (concat ts)" and "ascending_min_ids ts" and "above_threshold lastMinId ts"
  shows "ts \<in> set (fst (generatePartitions people teamSizes lastMinId))"
  using assms
proof (induction teamSizes arbitrary: people lastMinId ts)
  case Nil
  then show ?case by (simp add: generatePartitions.simps(1))
next
  case (Cons s rest)
  from Cons.prems(2) have pos: "0 < s" "\<forall>x \<in> set rest. 0 < x" by simp_all
  from Cons.prems(3) obtain T ts' where ts: "ts = T # ts'" and len: "length T = s"
    and lens: "map length ts' = rest" by auto
  let ?rem = "filter (\<lambda>p. p \<notin> set T) people"
  from len pos have ne: "T \<noteq> []" by auto
  have sub: "subseq T people" using Cons.prems(4) by (simp add: ts)
  have T: "T \<in> set (combinations people s)"
    using subseq_combinations [OF sub] by (simp add: len)
  have nb: "\<not> team_blocked lastMinId T"
    using Cons.prems(7) unfolding team_blocked_min [OF ne]
    by (simp add: above_threshold_def ts split: option.splits)
  have d: "distinct ?rem" using Cons.prems(1) by simp
  have subs: "\<forall>t \<in> set ts'. subseq t ?rem"
  proof
    fix t assume t: "t \<in> set ts'"
    with Cons.prems(4) have "subseq t people" by (simp add: ts)
    moreover have "\<forall>x \<in> set t. x \<notin> set T"
      using Cons.prems(5) t by (auto simp: ts)
    ultimately show "subseq t ?rem" by (rule subseq_filter_all)
  qed
  have dc: "distinct (concat ts')" using Cons.prems(5) by (simp add: ts)
  have asc: "ascending_min_ids ts'" using Cons.prems(6) by (cases ts') (simp_all add: ts)
  have ab: "above_threshold (next_min s rest T) ts'"
  proof (cases ts')
    case Nil
    then show ?thesis by (simp add: above_threshold_def split: option.split)
  next
    case (Cons t2 ts'')
    with lens have r: "rest = length t2 # map length ts''" by auto
    from Cons.prems(6) have "length T = length t2 \<longrightarrow> team_min_id T < team_min_id t2"
      by (simp add: ts Cons)
    then show ?thesis unfolding next_min_min [OF ne] r Cons
      by (simp add: above_threshold_def len)
  qed
  have "ts' \<in> set (fst (generatePartitions ?rem rest (next_min s rest T)))"
    by (rule Cons.IH [OF d pos(2) lens subs dc asc ab])
  with T nb show ?case
    unfolding generatePartitions_Cons [OF pos] ts by auto
qed

lemma generatePartitions_canonical:
  assumes "valid_input people teamSizes"
  shows "set (fst (generatePartitions people teamSizes None))
    = {ts. canonical_partition people teamSizes ts}"
proof (intro equalityI subsetI)
  from assms have pos: "\<forall>s \<in> set teamSizes. 0 < s" and sum: "sum_list teamSizes = length people"
    by (simp_all add: valid_input_def)
  note d = valid_input_distinct [OF assms]
  {
    fix ts assume ts: "ts \<in> set (fst (generatePartitions people teamSizes None))"
    from generatePartitions_cover [OF d pos sum ts]
    have c: "map length ts = teamSizes" "mset (concat ts) = mset people" "distinct (concat ts)"
      by simp_all
    from c(2) have "set (concat ts) = set people" by (rule mset_eq_setD)
    with c generatePartitions_sound [OF d pos ts]
    show "ts \<in> {ts. canonical_partition people teamSizes ts}"
      by (simp add: canonical_partition_def)
  next
    fix ts assume "ts \<in> {ts. canonical_partition people teamSizes ts}"
    then have c: "map length ts = teamSizes" "\<forall>t \<in> set ts. subseq t people"
      "distinct (concat ts)" "ascending_min_ids ts"
      by (simp_all add: canonical_partition_def)
    show "ts \<in> set (fst (generatePartitions people teamSizes None))"
      by (rule generatePartitions_complete [OF d pos c]) (simp add: above_threshold_def)
  }
qed




subsection \<open>What the driver returns\<close>

lemma generatePartitions_members:
  assumes "valid_input people teamSizes"
    and "p \<in> set (fst (generatePartitions people teamSizes None))"
  shows "map length p = teamSizes" and "mset (concat p) = mset people"
    and "distinct (concat p)" and "\<And>tm x. tm \<in> set p \<Longrightarrow> x \<in> set tm \<Longrightarrow> x \<in> set people"
proof -
  from assms(1) have pos: "\<forall>s \<in> set teamSizes. 0 < s" and sum: "sum_list teamSizes = length people"
    by (simp_all add: valid_input_def)
  from generatePartitions_cover [OF valid_input_distinct [OF assms(1)] pos sum assms(2)]
  show c: "map length p = teamSizes" "mset (concat p) = mset people" "distinct (concat p)"
    by simp_all
  show "x \<in> set people" if "tm \<in> set p" "x \<in> set tm" for tm x
  proof -
    from that have "x \<in> set (concat p)" by auto
    with c(2) show ?thesis by (metis set_mset_mset)
  qed
qed

text \<open>
  For every valid input, a returned assignment is a canonical partition with its own score,
  a number, and no canonical partition has a score that is a number below it.
\<close>

lemma optimizeTeams_least_number:
  assumes "valid_input people teamSizes"
  shows "\<exists>r. optimizeTeams t0 t1 people teamSizes m arg = Inr r \<and>
    (\<forall>a \<in> set (bestAssignments r).
       canonical_partition people teamSizes (map members (teams a))
       \<and> calculateConflictScore (map members (teams a)) m = Num (conflictScore a)
       \<and> (\<forall>p s. canonical_partition people teamSizes p \<and> calculateConflictScore p m = Num s
             \<longrightarrow> conflictScore a \<le> s))"
proof -
  define ps where "ps = fst (generatePartitions people teamSizes None)"
  from optimizeTeams_result [OF assms, of t0 t1 m arg]
  obtain r where run: "optimizeTeams t0 t1 people teamSizes m arg = Inr r"
    and b: "map (\<lambda>a. (map members (teams a), Num (conflictScore a))) (bestAssignments r) =
        take (nat (case arg of None \<Rightarrow> 10 | Some n \<Rightarrow> n))
          (map (\<lambda>p. (p, calculateConflictScore p m)) (minimal_partitions m ps))"
    unfolding ps_def by blast
  have can: "set ps = {p. canonical_partition people teamSizes p}"
    unfolding ps_def by (rule generatePartitions_canonical [OF assms])
  have "canonical_partition people teamSizes (map members (teams a))
       \<and> calculateConflictScore (map members (teams a)) m = Num (conflictScore a)
       \<and> (\<forall>p s. canonical_partition people teamSizes p \<and> calculateConflictScore p m = Num s
             \<longrightarrow> conflictScore a \<le> s)"
    if "a \<in> set (bestAssignments r)" for a
  proof -
    from bestAssignments_member [OF b that]
    have mem: "map members (teams a) \<in> set (minimal_partitions m ps)"
      and sc: "calculateConflictScore (map members (teams a)) m = Num (conflictScore a)"
      by simp_all
    from minimal_partitions_member(1) [OF mem] can
    have c: "canonical_partition people teamSizes (map members (teams a))" by auto
    from minimal_partitions_member(2) [OF mem] sc
    have M: "conflictScore a = Min (set (numeric_scores m ps))" by simp
    have "conflictScore a \<le> s"
      if "canonical_partition people teamSizes p" "calculateConflictScore p m = Num s" for p s
    proof -
      from that(1) can have "p \<in> set ps" by auto
      from minimal_partitions_member(3) [OF mem this that(2)] M show ?thesis by simp
    qed
    with c sc show ?thesis by blast
  qed
  with run show ?thesis by blast
qed

text \<open>
  Where every entry read between two of the people is a number, every generated partition
  has a number as its score, the sum of the entries of its pairs.
\<close>

lemma numeric_on_score:
  assumes "valid_input people teamSizes" and "numeric_on m people"
    and "p \<in> set (fst (generatePartitions people teamSizes None))"
  shows "calculateConflictScore p m = Num (\<Sum>tm \<leftarrow> p. pair_sum (entry_number m) tm)"
proof (rule calculateConflictScore_numbers, intro ballI)
  fix tm x y assume "tm \<in> set p" "x \<in> set tm" "y \<in> set tm"
  then have "x \<in> set people" "y \<in> set people"
    using generatePartitions_members(4) [OF assms(1,3)] by blast+
  with assms(2) show "conflict_entry m (person_id x) (person_id y) \<noteq> NonNumber"
    by (simp add: numeric_on_def)
qed

lemma pair_sum_cong:
  assumes "\<And>x y. x \<in> set tm \<Longrightarrow> y \<in> set tm \<Longrightarrow> c (person_id x) (person_id y) = c' (person_id x) (person_id y)"
  shows "pair_sum c tm = pair_sum c' tm"
proof -
  have inner: "(\<Sum>j \<leftarrow> [i + 1 ..< length tm]. c (person_id (tm ! i)) (person_id (tm ! j)))
      = (\<Sum>j \<leftarrow> [i + 1 ..< length tm]. c' (person_id (tm ! i)) (person_id (tm ! j)))"
    if "i \<in> set [0 ..< length tm]" for i
  proof -
    from that have i: "tm ! i \<in> set tm" by simp
    have "map (\<lambda>j. c (person_id (tm ! i)) (person_id (tm ! j))) [i + 1 ..< length tm]
        = map (\<lambda>j. c' (person_id (tm ! i)) (person_id (tm ! j))) [i + 1 ..< length tm]"
    proof (rule map_cong [OF refl])
      fix j assume "j \<in> set [i + 1 ..< length tm]"
      then have "tm ! j \<in> set tm" by simp
      with i show "c (person_id (tm ! i)) (person_id (tm ! j))
          = c' (person_id (tm ! i)) (person_id (tm ! j))"
        by (rule assms)
    qed
    then show ?thesis by (rule arg_cong)
  qed
  have "map (\<lambda>i. \<Sum>j \<leftarrow> [i + 1 ..< length tm]. c (person_id (tm ! i)) (person_id (tm ! j)))
        [0 ..< length tm]
      = map (\<lambda>i. \<Sum>j \<leftarrow> [i + 1 ..< length tm]. c' (person_id (tm ! i)) (person_id (tm ! j)))
        [0 ..< length tm]"
    by (rule map_cong [OF refl]) (rule inner)
  then show ?thesis unfolding pair_sum_def by (rule arg_cong)
qed

text \<open>
  For a matrix read from JSON and people whose ids are not keys of \<open>Object.prototype\<close>, the
  scorer adds the recorded counts, 0 where none is recorded, and a returned assignment has
  the least sum of all canonical partitions.
\<close>

lemma optimizeTeams_minimum_recorded:
  assumes "valid_input people teamSizes"
    and "\<forall>p \<in> set people. person_id p \<notin> set object_prototype_keys"
  shows "\<exists>r. optimizeTeams t0 t1 people teamSizes (json_matrix builtin own) arg = Inr r \<and>
    (\<forall>a \<in> set (bestAssignments r).
       canonical_partition people teamSizes (map members (teams a))
       \<and> conflictScore a = (\<Sum>tm \<leftarrow> map members (teams a). pair_sum (recorded_conflict own) tm)
       \<and> conflictScore a = Min ((\<lambda>p. \<Sum>tm \<leftarrow> p. pair_sum (recorded_conflict own) tm)
                                ` {p. canonical_partition people teamSizes p})
       \<and> (\<forall>p. canonical_partition people teamSizes p
             \<longrightarrow> conflictScore a \<le> (\<Sum>tm \<leftarrow> p. pair_sum (recorded_conflict own) tm)))"
proof -
  define ps where "ps = fst (generatePartitions people teamSizes None)"
  define rs where "rs = (\<lambda>p. \<Sum>tm \<leftarrow> p. pair_sum (recorded_conflict own) tm)"
  have can: "set ps = {p. canonical_partition people teamSizes p}"
    unfolding ps_def by (rule generatePartitions_canonical [OF assms(1)])
  have num: "numeric_on (json_matrix builtin own) people"
    by (rule json_matrix_numeric [OF assms(2)])
  have sc: "calculateConflictScore p (json_matrix builtin own) = Num (rs p)" if "p \<in> set ps" for p
  proof -
    have "pair_sum (entry_number (json_matrix builtin own)) tm = pair_sum (recorded_conflict own) tm"
      if "tm \<in> set p" for tm
    proof (rule pair_sum_cong)
      fix x y assume "x \<in> set tm" "y \<in> set tm"
      with \<open>tm \<in> set p\<close> \<open>p \<in> set ps\<close> have "x \<in> set people" "y \<in> set people"
        using generatePartitions_members(4) [OF assms(1)] unfolding ps_def by blast+
      with assms(2) show "entry_number (json_matrix builtin own) (person_id x) (person_id y)
          = recorded_conflict own (person_id x) (person_id y)"
        by (simp add: entry_number_def json_matrix_entry)
    qed
    then have "map (pair_sum (entry_number (json_matrix builtin own))) p
        = map (pair_sum (recorded_conflict own)) p"
      by (intro map_cong [OF refl]) simp
    with numeric_on_score [OF assms(1) num that [unfolded ps_def]] show ?thesis
      by (simp add: rs_def)
  qed
  from optimizeTeams_least_number [OF assms(1), of t0 t1 "json_matrix builtin own" arg]
  obtain r where run: "optimizeTeams t0 t1 people teamSizes (json_matrix builtin own) arg = Inr r"
    and least: "\<forall>a \<in> set (bestAssignments r).
       canonical_partition people teamSizes (map members (teams a))
       \<and> calculateConflictScore (map members (teams a)) (json_matrix builtin own)
           = Num (conflictScore a)
       \<and> (\<forall>p s. canonical_partition people teamSizes p
               \<and> calculateConflictScore p (json_matrix builtin own) = Num s
             \<longrightarrow> conflictScore a \<le> s)"
    by blast
  have "canonical_partition people teamSizes (map members (teams a))
       \<and> conflictScore a = rs (map members (teams a))
       \<and> conflictScore a = Min (rs ` {p. canonical_partition people teamSizes p})
       \<and> (\<forall>p. canonical_partition people teamSizes p \<longrightarrow> conflictScore a \<le> rs p)"
    if "a \<in> set (bestAssignments r)" for a
  proof -
    from least that have c: "canonical_partition people teamSizes (map members (teams a))"
      and s: "calculateConflictScore (map members (teams a)) (json_matrix builtin own)
           = Num (conflictScore a)"
      and l: "\<And>p s. canonical_partition people teamSizes p
               \<Longrightarrow> calculateConflictScore p (json_matrix builtin own) = Num s
               \<Longrightarrow> conflictScore a \<le> s"
      by blast+
    from c can have "map members (teams a) \<in> set ps" by auto
    from sc [OF this] s have e: "conflictScore a = rs (map members (teams a))" by simp
    have le: "conflictScore a \<le> rs p" if "canonical_partition people teamSizes p" for p
    proof -
      from that can have "p \<in> set ps" by auto
      from l [OF that sc [OF this]] show ?thesis .
    qed
    have fin: "finite (rs ` {p. canonical_partition people teamSizes p})"
      unfolding can [symmetric] by simp
    have "Min (rs ` {p. canonical_partition people teamSizes p}) = conflictScore a"
    proof (rule Min_eqI [OF fin])
      show "conflictScore a \<le> y" if "y \<in> rs ` {p. canonical_partition people teamSizes p}" for y
        using that le by auto
      show "conflictScore a \<in> rs ` {p. canonical_partition people teamSizes p}"
        using c e by auto
    qed
    with c e le show ?thesis by simp
  qed
  with run show ?thesis unfolding rs_def by blast
qed

text \<open>
  The partitions of three people with the ids \<open>1\<close>, \<open>toString\<close> and \<open>2\<close> into a team of
  two and a team of one: three are generated, the team \<open>[1, toString]\<close> first, and each is
  a canonical partition.
\<close>

lemma generatePartitions_toString:
  "generatePartitions
     [\<lparr>person_id = ''1'', person_name = ''Alice''\<rparr>,
      \<lparr>person_id = ''toString'', person_name = ''Bob''\<rparr>,
      \<lparr>person_id = ''2'', person_name = ''Carol''\<rparr>] [2, 1] None =
   ([[[\<lparr>person_id = ''1'', person_name = ''Alice''\<rparr>,
        \<lparr>person_id = ''toString'', person_name = ''Bob''\<rparr>],
       [\<lparr>person_id = ''2'', person_name = ''Carol''\<rparr>]],
      [[\<lparr>person_id = ''1'', person_name = ''Alice''\<rparr>,
        \<lparr>person_id = ''2'', person_name = ''Carol''\<rparr>],
       [\<lparr>person_id = ''toString'', person_name = ''Bob''\<rparr>]],
      [[\<lparr>person_id = ''toString'', person_name = ''Bob''\<rparr>,
        \<lparr>person_id = ''2'', person_name = ''Carol''\<rparr>],
       [\<lparr>person_id = ''1'', person_name = ''Alice''\<rparr>]]], None)"
  by code_simp

lemma canonical_partition_toString:
  "valid_input
     [\<lparr>person_id = ''1'', person_name = ''Alice''\<rparr>,
      \<lparr>person_id = ''toString'', person_name = ''Bob''\<rparr>,
      \<lparr>person_id = ''2'', person_name = ''Carol''\<rparr>] [2, 1]
   \<and> canonical_partition
     [\<lparr>person_id = ''1'', person_name = ''Alice''\<rparr>,
      \<lparr>person_id = ''toString'', person_name = ''Bob''\<rparr>,
      \<lparr>person_id = ''2'', person_name = ''Carol''\<rparr>] [2, 1]
     [[\<lparr>person_id = ''1'', person_name = ''Alice''\<rparr>,
       \<lparr>person_id = ''toString'', person_name = ''Bob''\<rparr>],
      [\<lparr>person_id = ''2'', person_name = ''Carol''\<rparr>]]"
proof -
  have v: "valid_input
     [\<lparr>person_id = ''1'', person_name = ''Alice''\<rparr>,
      \<lparr>person_id = ''toString'', person_name = ''Bob''\<rparr>,
      \<lparr>person_id = ''2'', person_name = ''Carol''\<rparr>] [2, 1]"
    by (simp add: valid_input_def)
  have "[[\<lparr>person_id = ''1'', person_name = ''Alice''\<rparr>,
       \<lparr>person_id = ''toString'', person_name = ''Bob''\<rparr>],
      [\<lparr>person_id = ''2'', person_name = ''Carol''\<rparr>]]
    \<in> set (fst (generatePartitions
     [\<lparr>person_id = ''1'', person_name = ''Alice''\<rparr>,
      \<lparr>person_id = ''toString'', person_name = ''Bob''\<rparr>,
      \<lparr>person_id = ''2'', person_name = ''Carol''\<rparr>] [2, 1] None))"
    unfolding generatePartitions_toString by simp
  with generatePartitions_canonical [OF v] v show ?thesis by blast
qed

text \<open>
  Claim C2 asks for the minimum over all canonical partitions, where a pair with no
  recorded count adds 0 (the scorer's own comment: \<open>default to 0 if not found\<close>). The
  lookup \<open>conflictMatrix[person1]?.[person2]\<close> also finds the members a row inherits from
  \<open>Object.prototype\<close>. With the people \<open>1\<close>, \<open>toString\<close>, \<open>2\<close>, the team sizes \<open>[2, 1]\<close> and
  the matrix \<open>{'1': {'2': 3}, 'toString': {'2': 5}}\<close>, the partition \<open>[1, toString] | [2]\<close>
  has no recorded count, sum 0; the lookup of row \<open>1\<close>, column \<open>toString\<close> finds the
  inherited function, the score is a string, and the partition is counted and not kept:
  \<open>optimizeTeams\<close> returns \<open>[1, 2] | [toString]\<close> with the score 3.
\<close>

theorem optimizeTeams_inherited_member:
  "optimizeTeams 0 0
     [\<lparr>person_id = ''1'', person_name = ''Alice''\<rparr>,
      \<lparr>person_id = ''toString'', person_name = ''Bob''\<rparr>,
      \<lparr>person_id = ''2'', person_name = ''Carol''\<rparr>] [2, 1]
     (json_matrix builtin [''1'' \<mapsto> [''2'' \<mapsto> 3], ''toString'' \<mapsto> [''2'' \<mapsto> 5]]) None =
     Inr \<lparr>bestAssignments =
            [\<lparr>teams = [\<lparr>members = [\<lparr>person_id = ''1'', person_name = ''Alice''\<rparr>,
                                     \<lparr>person_id = ''2'', person_name = ''Carol''\<rparr>]\<rparr>,
                        \<lparr>members = [\<lparr>person_id = ''toString'', person_name = ''Bob''\<rparr>]\<rparr>],
              conflictScore = 3\<rparr>],
          totalCombinationsChecked = 3, executionTimeMs = 0\<rparr>
   \<and> calculateConflictScore
       [[\<lparr>person_id = ''1'', person_name = ''Alice''\<rparr>,
         \<lparr>person_id = ''toString'', person_name = ''Bob''\<rparr>],
        [\<lparr>person_id = ''2'', person_name = ''Carol''\<rparr>]]
       (json_matrix builtin [''1'' \<mapsto> [''2'' \<mapsto> 3], ''toString'' \<mapsto> [''2'' \<mapsto> 5]]) = Str
   \<and> (\<Sum>tm \<leftarrow> [[\<lparr>person_id = ''1'', person_name = ''Alice''\<rparr>,
                  \<lparr>person_id = ''toString'', person_name = ''Bob''\<rparr>],
                 [\<lparr>person_id = ''2'', person_name = ''Carol''\<rparr>]].
        pair_sum (recorded_conflict [''1'' \<mapsto> [''2'' \<mapsto> 3], ''toString'' \<mapsto> [''2'' \<mapsto> 5]]) tm) = 0"
proof -
  let ?m = "json_matrix builtin [''1'' \<mapsto> [''2'' \<mapsto> 3], ''toString'' \<mapsto> [''2'' \<mapsto> 5]]"
  have s1: "calculateConflictScore
       [[\<lparr>person_id = ''1'', person_name = ''Alice''\<rparr>,
         \<lparr>person_id = ''toString'', person_name = ''Bob''\<rparr>],
        [\<lparr>person_id = ''2'', person_name = ''Carol''\<rparr>]] ?m = Str"
    by (simp add: calculateConflictScore_def conflict_entry_def json_matrix_def
        object_prototype_keys_def add_conflict_def upt_rec)
  have s2: "calculateConflictScore
       [[\<lparr>person_id = ''1'', person_name = ''Alice''\<rparr>,
         \<lparr>person_id = ''2'', person_name = ''Carol''\<rparr>],
        [\<lparr>person_id = ''toString'', person_name = ''Bob''\<rparr>]] ?m = Num 3"
    by (simp add: calculateConflictScore_def conflict_entry_def json_matrix_def
        object_prototype_keys_def add_conflict_def upt_rec)
  have s3: "calculateConflictScore
       [[\<lparr>person_id = ''toString'', person_name = ''Bob''\<rparr>,
         \<lparr>person_id = ''2'', person_name = ''Carol''\<rparr>],
        [\<lparr>person_id = ''1'', person_name = ''Alice''\<rparr>]] ?m = Num 5"
    by (simp add: calculateConflictScore_def conflict_entry_def json_matrix_def
        object_prototype_keys_def add_conflict_def upt_rec)
  have run: "optimizeTeams 0 0
     [\<lparr>person_id = ''1'', person_name = ''Alice''\<rparr>,
      \<lparr>person_id = ''toString'', person_name = ''Bob''\<rparr>,
      \<lparr>person_id = ''2'', person_name = ''Carol''\<rparr>] [2, 1] ?m None =
     Inr \<lparr>bestAssignments =
            [\<lparr>teams = [\<lparr>members = [\<lparr>person_id = ''1'', person_name = ''Alice''\<rparr>,
                                     \<lparr>person_id = ''2'', person_name = ''Carol''\<rparr>]\<rparr>,
                        \<lparr>members = [\<lparr>person_id = ''toString'', person_name = ''Bob''\<rparr>]\<rparr>],
              conflictScore = 3\<rparr>],
          totalCombinationsChecked = 3, executionTimeMs = 0\<rparr>"
    unfolding optimizeTeams_def optimizeTeams_run_def generatePartitions_toString
    by (simp add: search_step_def search_init_def s1 s2 s3 assignment_of_def slice0_def
        del: generatePartitions.simps)
  have rec: "(\<Sum>tm \<leftarrow> [[\<lparr>person_id = ''1'', person_name = ''Alice''\<rparr>,
                  \<lparr>person_id = ''toString'', person_name = ''Bob''\<rparr>],
                 [\<lparr>person_id = ''2'', person_name = ''Carol''\<rparr>]].
        pair_sum (recorded_conflict [''1'' \<mapsto> [''2'' \<mapsto> 3], ''toString'' \<mapsto> [''2'' \<mapsto> 5]]) tm) = 0"
    by (simp add: pair_sum_def recorded_conflict_def upt_rec)
  from run s1 rec show ?thesis by (simp only: simp_thms)
qed

text \<open>
  Claim C6. For a valid input, the teams of every returned assignment hold each person of
  the input exactly once, and the team of slot \<open>i\<close> has \<open>teamSizes[i]\<close> members.
\<close>

theorem optimizeTeams_partition:
  assumes "valid_input people teamSizes"
  shows "\<exists>r. optimizeTeams t0 t1 people teamSizes m arg = Inr r \<and>
    (\<forall>a \<in> set (bestAssignments r).
       mset (concat (map members (teams a))) = mset people
       \<and> distinct (concat (map members (teams a)))
       \<and> map (\<lambda>t. length (members t)) (teams a) = teamSizes)"
proof -
  define ps where "ps = fst (generatePartitions people teamSizes None)"
  from optimizeTeams_result [OF assms, of t0 t1 m arg]
  obtain r where run: "optimizeTeams t0 t1 people teamSizes m arg = Inr r"
    and b: "map (\<lambda>a. (map members (teams a), Num (conflictScore a))) (bestAssignments r) =
        take (nat (case arg of None \<Rightarrow> 10 | Some n \<Rightarrow> n))
          (map (\<lambda>p. (p, calculateConflictScore p m)) (minimal_partitions m ps))"
    unfolding ps_def by blast
  have "mset (concat (map members (teams a))) = mset people
       \<and> distinct (concat (map members (teams a)))
       \<and> map (\<lambda>t. length (members t)) (teams a) = teamSizes"
    if "a \<in> set (bestAssignments r)" for a
  proof -
    from bestAssignments_member(1) [OF b that]
    have "map members (teams a) \<in> set ps" by (rule minimal_partitions_member(1))
    from generatePartitions_members(1-3) [OF assms this [unfolded ps_def]]
    have c: "map length (map members (teams a)) = teamSizes"
      "mset (concat (map members (teams a))) = mset people"
      "distinct (concat (map members (teams a)))"
      by simp_all
    have "map (\<lambda>t. length (members t)) (teams a) = map length (map members (teams a))"
      by (simp add: comp_def)
    with c show ?thesis by simp
  qed
  with run show ?thesis by blast
qed


theorem optimizeTeams_partition_witness:
  "valid_input
     [\<lparr>person_id = ''1'', person_name = ''A''\<rparr>, \<lparr>person_id = ''2'', person_name = ''B''\<rparr>,
      \<lparr>person_id = ''3'', person_name = ''C''\<rparr>]
     [1, 2]
   \<and> (\<exists>r. optimizeTeams 0 0
     [\<lparr>person_id = ''1'', person_name = ''A''\<rparr>, \<lparr>person_id = ''2'', person_name = ''B''\<rparr>,
      \<lparr>person_id = ''3'', person_name = ''C''\<rparr>]
     [1, 2] [''1'' \<mapsto> [''2'' \<mapsto> Number 5]] None = Inr r
     \<and> bestAssignments r \<noteq> []
     \<and> (\<forall>a \<in> set (bestAssignments r).
       mset (concat (map members (teams a)))
         = mset [\<lparr>person_id = ''1'', person_name = ''A''\<rparr>, \<lparr>person_id = ''2'', person_name = ''B''\<rparr>,
                 \<lparr>person_id = ''3'', person_name = ''C''\<rparr>]
       \<and> distinct (concat (map members (teams a)))
       \<and> map (\<lambda>t. length (members t)) (teams a) = [1, 2]))"
proof -
  let ?people = "[\<lparr>person_id = ''1'', person_name = ''A''\<rparr>, \<lparr>person_id = ''2'', person_name = ''B''\<rparr>,
      \<lparr>person_id = ''3'', person_name = ''C''\<rparr>]"
  let ?m = "[''1'' \<mapsto> [''2'' \<mapsto> Number 5]]"
  let ?R = "\<lparr>bestAssignments =
     [\<lparr>teams = [\<lparr>members = [\<lparr>person_id = ''1'', person_name = ''A''\<rparr>]\<rparr>,
                \<lparr>members = [\<lparr>person_id = ''2'', person_name = ''B''\<rparr>, \<lparr>person_id = ''3'', person_name = ''C''\<rparr>]\<rparr>],
       conflictScore = 0\<rparr>,
      \<lparr>teams = [\<lparr>members = [\<lparr>person_id = ''2'', person_name = ''B''\<rparr>]\<rparr>,
                \<lparr>members = [\<lparr>person_id = ''1'', person_name = ''A''\<rparr>, \<lparr>person_id = ''3'', person_name = ''C''\<rparr>]\<rparr>],
       conflictScore = 0\<rparr>],
     totalCombinationsChecked = 3, executionTimeMs = 0\<rparr>"
  have v: "valid_input ?people [1, 2]" by (simp add: valid_input_def)
  have ev: "optimizeTeams 0 0 ?people [1, 2] ?m None = Inr ?R" by code_simp
  from optimizeTeams_partition [OF v, of 0 0 ?m None]
  obtain r where r: "optimizeTeams 0 0 ?people [1, 2] ?m None = Inr r"
    and p: "\<forall>a \<in> set (bestAssignments r).
       mset (concat (map members (teams a))) = mset ?people
       \<and> distinct (concat (map members (teams a)))
       \<and> map (\<lambda>t. length (members t)) (teams a) = [1, 2]"
    by blast
  from r ev have R: "r = ?R" by simp
  have "bestAssignments r \<noteq> []" unfolding R by simp
  with v r p show ?thesis by blast
qed

section \<open>Counting the partitions\<close>

subsection \<open>Sums over the candidate teams\<close>










subsection \<open>The number of yielded partitions\<close>



subsection \<open>The closed form\<close>
















declare generatePartitions.simps [simp del]


end
